theory Spec2Isabelle
  imports Main "HOL-Library.Char_ord" "HOL-Library.List_Lexorder" "HOL-Library.Multiset"
    "HOL-Library.Word"
begin

section \<open>Text: characters and the string operations of the source\<close>

text \<open>
  A Python \<^verbatim>\<open>str\<close> is a sequence of code points. The model is \<^typ>\<open>string\<close>, and a
  \<^typ>\<open>char\<close> stands for the code point with the same number, so the model covers text
  over the code points 0 to 255. The character classes below are the ones Python's
  \<^verbatim>\<open>str.isspace\<close>, \<^verbatim>\<open>str.lower\<close> and the \<^verbatim>\<open>re\<close> classes
  \<^verbatim>\<open>\s\<close>, \<^verbatim>\<open>\d\<close>, \<^verbatim>\<open>\w\<close> have on that range.
\<close>

definition code :: "char \<Rightarrow> nat" where
  "code c = of_char c"

definition newline :: char where
  "newline = CHR 0x0A"

definition isspace :: "char \<Rightarrow> bool" where
  "isspace c = (let n = code c in (9 \<le> n \<and> n \<le> 13) \<or> (28 \<le> n \<and> n \<le> 32) \<or> n = 133 \<or> n = 160)"

definition isdigit :: "char \<Rightarrow> bool" where
  "isdigit c = (let n = code c in 48 \<le> n \<and> n \<le> 57)"

definition isword :: "char \<Rightarrow> bool" where
  "isword c = (let n = code c in
     (48 \<le> n \<and> n \<le> 57) \<or> (65 \<le> n \<and> n \<le> 90) \<or> n = 95 \<or> (97 \<le> n \<and> n \<le> 122) \<or>
     n = 170 \<or> n = 178 \<or> n = 179 \<or> n = 181 \<or> n = 185 \<or> n = 186 \<or> (188 \<le> n \<and> n \<le> 190) \<or>
     (192 \<le> n \<and> n \<le> 214) \<or> (216 \<le> n \<and> n \<le> 246) \<or> 248 \<le> n)"

definition lower_char :: "char \<Rightarrow> char" where
  "lower_char c = (let n = code c in
     if (65 \<le> n \<and> n \<le> 90) \<or> (192 \<le> n \<and> n \<le> 214) \<or> (216 \<le> n \<and> n \<le> 222)
     then char_of (n + 32) else c)"

text \<open>\<^verbatim>\<open>s.lower()\<close>, \<^verbatim>\<open>s.strip()\<close>, \<^verbatim>\<open>s.startswith(p)\<close>, \<^verbatim>\<open>p in s\<close>,
  \<^verbatim>\<open>s.split('\n')\<close> and \<^verbatim>\<open>s.replace(a, b)\<close> for single characters.\<close>

definition lower :: "string \<Rightarrow> string" where
  "lower s = map lower_char s"

definition lstrip :: "string \<Rightarrow> string" where
  "lstrip s = dropWhile isspace s"

definition strip :: "string \<Rightarrow> string" where
  "strip s = rev (lstrip (rev (lstrip s)))"

fun startswith :: "string \<Rightarrow> string \<Rightarrow> bool" where
  "startswith s [] = True"
| "startswith [] (p # ps) = False"
| "startswith (c # cs) (p # ps) = (c = p \<and> startswith cs ps)"

fun contains :: "string \<Rightarrow> string \<Rightarrow> bool" where
  "contains [] p = (p = [])"
| "contains (c # cs) p = (startswith (c # cs) p \<or> contains cs p)"

fun split_lines :: "string \<Rightarrow> string list" where
  "split_lines [] = [[]]"
| "split_lines (c # cs) =
     (if c = newline then [] # split_lines cs
      else (case split_lines cs of [] \<Rightarrow> [[c]] | l # ls \<Rightarrow> (c # l) # ls))"

definition replace_char :: "char \<Rightarrow> char \<Rightarrow> string \<Rightarrow> string" where
  "replace_char a b s = map (\<lambda>c. if c = a then b else c) s"

section \<open>Regular expressions with Python's backtracking order\<close>

text \<open>
  The patterns of the source are built from character classes with a quantifier, literal
  text, \<^verbatim>\<open>$\<close>, alternation and one capture group. A pattern is matched against the rest
  of the input and yields every way to match, as the list of the inputs that remain,
  in the order in which a backtracking matcher tries them: a greedy quantifier offers the
  longest repetition first, a lazy one the shortest. The first element is the match that
  \<^verbatim>\<open>re.match\<close> reports. \<^verbatim>\<open>^\<close> is not modelled: it occurs only at the head of patterns
  given to \<^verbatim>\<open>re.match\<close>, which matches at the start of the string anyway.
\<close>

datatype cclass =
    Ch char                 \<comment> \<open>a literal character\<close>
  | AnyCh                   \<comment> \<open>\<^verbatim>\<open>.\<close>\<close>
  | SpaceCh                 \<comment> \<open>\<^verbatim>\<open>\s\<close>\<close>
  | DigitCh                 \<comment> \<open>\<^verbatim>\<open>\d\<close>\<close>
  | WordCh                  \<comment> \<open>\<^verbatim>\<open>\w\<close>\<close>
  | InSet "cclass list"     \<comment> \<open>\<^verbatim>\<open>[...]\<close>\<close>
  | NotInSet "cclass list"  \<comment> \<open>\<^verbatim>\<open>[^...]\<close>\<close>

datatype regex =
    ROne cclass             \<comment> \<open>\<^verbatim>\<open>x\<close>\<close>
  | ROpt cclass             \<comment> \<open>\<^verbatim>\<open>x?\<close>\<close>
  | RStar cclass            \<comment> \<open>\<^verbatim>\<open>x*\<close>\<close>
  | RPlus cclass            \<comment> \<open>\<^verbatim>\<open>x+\<close>\<close>
  | RStarLazy cclass        \<comment> \<open>\<^verbatim>\<open>x*?\<close>\<close>
  | RPlusLazy cclass        \<comment> \<open>\<^verbatim>\<open>x+?\<close>\<close>
  | RRep nat cclass         \<comment> \<open>\<^verbatim>\<open>x{n}\<close>\<close>
  | RLit string             \<comment> \<open>literal text\<close>
  | REnd                    \<comment> \<open>\<^verbatim>\<open>$\<close>\<close>
  | RSeq "regex list"       \<comment> \<open>concatenation\<close>
  | RAlt regex regex        \<comment> \<open>\<^verbatim>\<open>r|s\<close>\<close>
  | RGroup regex            \<comment> \<open>\<^verbatim>\<open>(r)\<close>, the capture group 1\<close>

text \<open>The first argument is the flag \<^verbatim>\<open>re.IGNORECASE\<close>.\<close>

fun cmatch :: "bool \<Rightarrow> cclass \<Rightarrow> char \<Rightarrow> bool" where
  "cmatch ic (Ch a) c = (if ic then lower_char c = lower_char a else c = a)"
| "cmatch ic AnyCh c = (c \<noteq> newline)"
| "cmatch ic SpaceCh c = isspace c"
| "cmatch ic DigitCh c = isdigit c"
| "cmatch ic WordCh c = isword c"
| "cmatch ic (InSet ks) c = (\<exists>k \<in> set ks. cmatch ic k c)"
| "cmatch ic (NotInSet ks) c = (\<not> (\<exists>k \<in> set ks. cmatch ic k c))"

text \<open>The inputs that remain after a repetition of characters satisfying \<open>p\<close>:
  longest repetition first (greedy), or shortest first (lazy).\<close>

fun greedy :: "(char \<Rightarrow> bool) \<Rightarrow> string \<Rightarrow> string list" where
  "greedy p [] = [[]]"
| "greedy p (c # cs) = (if p c then greedy p cs @ [c # cs] else [c # cs])"

fun lazy :: "(char \<Rightarrow> bool) \<Rightarrow> string \<Rightarrow> string list" where
  "lazy p [] = [[]]"
| "lazy p (c # cs) = (c # cs) # (if p c then lazy p cs else [])"

fun one :: "(char \<Rightarrow> bool) \<Rightarrow> string \<Rightarrow> string list" where
  "one p [] = []"
| "one p (c # cs) = (if p c then [cs] else [])"

fun rep :: "nat \<Rightarrow> (char \<Rightarrow> bool) \<Rightarrow> string \<Rightarrow> string list" where
  "rep 0 p s = [s]"
| "rep (Suc n) p [] = []"
| "rep (Suc n) p (c # cs) = (if p c then rep n p cs else [])"

fun literal :: "bool \<Rightarrow> string \<Rightarrow> string \<Rightarrow> string list" where
  "literal ic [] s = [s]"
| "literal ic (a # as) [] = []"
| "literal ic (a # as) (c # cs) = (if cmatch ic (Ch a) c then literal ic as cs else [])"

text \<open>A state of the matcher is the input that remains and the text of group 1.\<close>

type_synonym mstate = "string \<times> string option"

fun rmatch :: "bool \<Rightarrow> regex \<Rightarrow> mstate \<Rightarrow> mstate list"
  and rmatch_seq :: "bool \<Rightarrow> regex list \<Rightarrow> mstate \<Rightarrow> mstate list" where
  "rmatch ic (ROne k) (s, g) = map (\<lambda>r. (r, g)) (one (cmatch ic k) s)"
| "rmatch ic (ROpt k) (s, g) = map (\<lambda>r. (r, g)) (one (cmatch ic k) s @ [s])"
| "rmatch ic (RStar k) (s, g) = map (\<lambda>r. (r, g)) (greedy (cmatch ic k) s)"
| "rmatch ic (RPlus k) (s, g) =
     map (\<lambda>r. (r, g)) (concat (map (greedy (cmatch ic k)) (one (cmatch ic k) s)))"
| "rmatch ic (RStarLazy k) (s, g) = map (\<lambda>r. (r, g)) (lazy (cmatch ic k) s)"
| "rmatch ic (RPlusLazy k) (s, g) =
     map (\<lambda>r. (r, g)) (concat (map (lazy (cmatch ic k)) (one (cmatch ic k) s)))"
| "rmatch ic (RRep n k) (s, g) = map (\<lambda>r. (r, g)) (rep n (cmatch ic k) s)"
| "rmatch ic (RLit as) (s, g) = map (\<lambda>r. (r, g)) (literal ic as s)"
| "rmatch ic REnd (s, g) = (if s = [] \<or> s = [newline] then [(s, g)] else [])"
| "rmatch ic (RSeq rs) st = rmatch_seq ic rs st"
| "rmatch ic (RAlt r1 r2) st = rmatch ic r1 st @ rmatch ic r2 st"
| "rmatch ic (RGroup r) (s, g) =
     map (\<lambda>(s', g'). (s', Some (take (length s - length s') s))) (rmatch ic r (s, g))"
| "rmatch_seq ic [] st = [st]"
| "rmatch_seq ic (r # rs) st = concat (map (rmatch_seq ic rs) (rmatch ic r st))"

text \<open>
  The result of \<^verbatim>\<open>re.match\<close> and \<^verbatim>\<open>re.search\<close>: \<open>None\<close>, or the text of group 1
  (\<open>None\<close> inside when the pattern has no group) and the input after the match.
\<close>

record rematch =
  group1 :: "string option"
  after :: string

definition re_match :: "bool \<Rightarrow> regex \<Rightarrow> string \<Rightarrow> rematch option" where
  "re_match ic r s =
     (case rmatch ic r (s, None) of
        [] \<Rightarrow> None
      | (s', g) # _ \<Rightarrow> Some \<lparr>group1 = g, after = s'\<rparr>)"

text \<open>\<^verbatim>\<open>re.search\<close> tries every start position from the left, the end of the string included.\<close>

fun re_search :: "bool \<Rightarrow> regex \<Rightarrow> string \<Rightarrow> rematch option" where
  "re_search ic r [] = re_match ic r []"
| "re_search ic r (c # cs) =
     (case re_match ic r (c # cs) of
        Some m \<Rightarrow> Some m
      | None \<Rightarrow> re_search ic r cs)"

text \<open>
  \<^verbatim>\<open>re.sub(pattern, repl, s)\<close> replaces the non-overlapping matches from the left. Where
  the pattern matches without consuming input, the replacement is inserted and one
  character is copied.
\<close>

function re_sub :: "bool \<Rightarrow> regex \<Rightarrow> string \<Rightarrow> string \<Rightarrow> string" where
  "re_sub ic r repl s =
     (case re_match ic r s of
        None \<Rightarrow> (case s of [] \<Rightarrow> [] | c # cs \<Rightarrow> c # re_sub ic r repl cs)
      | Some m \<Rightarrow>
          if length (after m) < length s then repl @ re_sub ic r repl (after m)
          else (case s of [] \<Rightarrow> repl | c # cs \<Rightarrow> repl @ c # re_sub ic r repl cs))"
  by pat_completeness auto
termination
  by (relation "measure (\<lambda>(ic, r, repl, s). length s)") auto

declare re_sub.simps [simp del]

section \<open>The title parser\<close>

subsection \<open>\<^verbatim>\<open>is_paper_title_line\<close>\<close>

definition skip_patterns :: "regex list" where
  "skip_patterns =
   [RSeq [RLit ''author'', ROpt (Ch CHR ''s''), RLit '':''],
    RLit ''#'',
    RSeq [RLit ''best paper'', ROpt (Ch CHR ''s''), ROne SpaceCh],
    RSeq [RLit ''best paper'', ROne SpaceCh],
    RSeq [RLit ''best student'', ROne SpaceCh],
    RSeq [RLit ''longuet-higgins'', ROne SpaceCh],
    RSeq [RLit ''test of time'', ROne SpaceCh],
    RSeq [RLit ''helmholtz'', ROne SpaceCh],
    RSeq [RLit ''outstanding'', ROne SpaceCh],
    RLit ''award candidates'',
    RSeq [RLit ''runner'', ROpt (Ch CHR ''s''), ROpt SpaceCh, RLit ''up'', ROpt (Ch CHR ''s'')],
    RSeq [RLit ''content'', ROpt (Ch CHR ''s''), REnd],
    RSeq [RLit ''['', RStar AnyCh, RLit '']'', RLit ''['', RStar AnyCh, RLit '']''],
    RLit ''back to top'',
    RLit ''table of contents'',
    RSeq [RRep 4 DigitCh, RStar SpaceCh, REnd],
    RSeq [RPlus (Ch CHR ''-''), REnd],
    RSeq [RPlus (Ch CHR ''=''), REnd],
    RSeq [RPlus (Ch CHR ''*''), REnd],
    RSeq [RStar SpaceCh, RLit ''|''],
    RSeq [RLit ''venue'', ROne SpaceCh],
    RSeq [RLit ''year'', ROne SpaceCh]]"

definition paper_indicator :: regex where
  "paper_indicator = RAlt (RLit ''[paper]'') (RAlt (RLit ''[pdf]'') (RLit ''[link]''))"

definition is_paper_title_line :: "string \<Rightarrow> bool" where
  "is_paper_title_line line0 =
     (let line = strip line0 in
      if line = [] then False
      else if \<exists>pattern \<in> set skip_patterns. re_match True pattern line \<noteq> None then False
      else if length line < 10 then False
      else
        (let has_paper_indicator = (re_search True paper_indicator line \<noteq> None);
             is_reasonable_title = (length line > 15 \<and>
               \<not> (startswith line ''http'' \<or> startswith line ''www'' \<or> startswith line ''```''))
         in has_paper_indicator \<or> is_reasonable_title))"

subsection \<open>\<^verbatim>\<open>extract_title_from_line\<close>\<close>

text \<open>\<^verbatim>\<open>^(.+?)\s*\([^)]+\)\s*\[.*?\]\<close>\<close>

definition title_paren_bracket :: regex where
  "title_paren_bracket =
     RSeq [RGroup (RPlusLazy AnyCh), RStar SpaceCh, RLit ''('', RPlus (NotInSet [Ch CHR '')'']),
           RLit '')'', RStar SpaceCh, RLit ''['', RStarLazy AnyCh, RLit '']'']"

text \<open>\<^verbatim>\<open>\[(.+?)\]\([^)]+\)\<close>\<close>

definition markdown_link :: regex where
  "markdown_link =
     RSeq [RLit ''['', RGroup (RPlusLazy AnyCh), RLit '']'', RLit ''('',
           RPlus (NotInSet [Ch CHR '')'']), RLit '')'']"

text \<open>\<^verbatim>\<open>\s*\[.*?\]\s*$\<close>\<close>

definition trailing_bracket :: regex where
  "trailing_bracket =
     RSeq [RStar SpaceCh, RLit ''['', RStarLazy AnyCh, RLit '']'', RStar SpaceCh, REnd]"

text \<open>\<^verbatim>\<open>\s*\([^)]*\d{4}[^)]*\)\s*$\<close>\<close>

definition trailing_year :: regex where
  "trailing_year =
     RSeq [RStar SpaceCh, RLit ''('', RStar (NotInSet [Ch CHR '')'']), RRep 4 DigitCh,
           RStar (NotInSet [Ch CHR '')'']), RLit '')'', RStar SpaceCh, REnd]"

text \<open>\<^verbatim>\<open>match.group(1)\<close>; every match of the two patterns with a group sets it.\<close>

definition group :: "rematch \<Rightarrow> string" where
  "group m = (case group1 m of None \<Rightarrow> [] | Some g \<Rightarrow> g)"

definition extract_title_from_line :: "string \<Rightarrow> string" where
  "extract_title_from_line line0 =
     (let line = strip line0;
          title =
            (case re_match False title_paren_bracket line of
               Some m \<Rightarrow> strip (group m)
             | None \<Rightarrow>
                 (case re_search False markdown_link line of
                    Some markdown_match \<Rightarrow> strip (group markdown_match)
                  | None \<Rightarrow>
                      (let title = strip (re_sub False trailing_bracket [] line)
                       in strip (re_sub False trailing_year [] title))));
          title = re_sub False (RLit ''**'') [] title;
          title = re_sub False (RPlus SpaceCh) '' '' title
      in strip title)"

subsection \<open>\<^verbatim>\<open>parse_papers_from_main_readme\<close>\<close>

record paper =
  title :: string
  paper_section :: string  \<comment> \<open>the key \<^verbatim>\<open>section\<close>\<close>
  raw_line :: string

text \<open>The dictionary \<^verbatim>\<open>sections\<close> keeps its keys in the order of insertion.\<close>

type_synonym sections = "(string \<times> paper list) list"

definition section_names :: "string list" where
  "section_names = [''CVPR'', ''ICLR'', ''NeurIPS'', ''ICCV'', ''ICML'', ''ECCV'', ''AAAI'',
     ''WACV'', ''BMVC'', ''Test-of-Time-Papers'']"

definition empty_sections :: sections where
  "empty_sections = map (\<lambda>name. (name, [])) section_names"

text \<open>
  The header patterns, matched with \<^verbatim>\<open>re.IGNORECASE\<close>:
  \<^verbatim>\<open>#+\s*test\s+of\s+time\s+papers?(?:\s|$)\<close> for the key \<^verbatim>\<open>Test-of-Time-Papers\<close>, and
  \<^verbatim>\<open>#+\s*{re.escape(section_name)}(?:\s|$)\<close> for every other key, where the escaped
  name matches as literal text.
\<close>

definition header_pattern :: "string \<Rightarrow> regex" where
  "header_pattern section_name =
     (if section_name = ''Test-of-Time-Papers''
      then RSeq [RPlus (Ch CHR ''#''), RStar SpaceCh, RLit ''test'', RPlus SpaceCh, RLit ''of'',
                 RPlus SpaceCh, RLit ''time'', RPlus SpaceCh, RLit ''paper'', ROpt (Ch CHR ''s''),
                 RAlt (ROne SpaceCh) REnd]
      else RSeq [RPlus (Ch CHR ''#''), RStar SpaceCh, RLit section_name,
                 RAlt (ROne SpaceCh) REnd])"

definition is_header :: "string \<Rightarrow> string \<Rightarrow> bool" where
  "is_header line_stripped section_name =
     (re_match True (header_pattern section_name) line_stripped \<noteq> None)"

definition banned :: "string list" where
  "banned = [''readme'', ''back to top'', ''table of contents'', ''best papers'',
     ''best paper'', ''authors:'', ''venue:'', ''year:'']"

definition valid_title :: "string \<Rightarrow> bool" where
  "valid_title t = (length t > 10 \<and> \<not> (\<exists>skip \<in> set banned. contains (lower t) skip))"

text \<open>\<^verbatim>\<open>sections[current_section].append(record)\<close>\<close>

definition append_paper :: "string \<Rightarrow> paper \<Rightarrow> sections \<Rightarrow> sections" where
  "append_paper key p secs = map (\<lambda>(k, ps). if k = key then (k, ps @ [p]) else (k, ps)) secs"

text \<open>The state of the loop over the lines: the section that is open, the dictionary,
  and the lines printed so far.\<close>

record pstate =
  current_section :: "string option"
  sections :: sections
  printed :: "string list"

definition parse_line :: "pstate \<Rightarrow> string \<Rightarrow> pstate" where
  "parse_line st line =
     (let line_stripped = strip line in
      case find (is_header line_stripped) (map fst (sections st)) of
        Some section_name \<Rightarrow>
          st\<lparr>current_section := Some section_name,
             printed := printed st @ [''Found section: '' @ section_name]\<rparr>
      | None \<Rightarrow>
          (case current_section st of
             None \<Rightarrow> st
           | Some cur \<Rightarrow>
               if cur \<noteq> [] \<and> is_paper_title_line line_stripped then
                 (let t = extract_title_from_line line_stripped in
                  if valid_title t then
                    st\<lparr>sections :=
                         append_paper cur \<lparr>title = t, paper_section = cur, raw_line = line\<rparr> (sections st),
                       printed := printed st @ [''   Added paper: '' @ take 60 t @ ''...'']\<rparr>
                  else st)
               else st))"

fun parse_lines :: "pstate \<Rightarrow> string list \<Rightarrow> pstate" where
  "parse_lines st [] = st"
| "parse_lines st (line # lines) = parse_lines (parse_line st line) lines"

text \<open>The object the methods belong to, as \<^verbatim>\<open>__init__\<close> sets it up: the keys and
  addresses of the search services, the counters of \<^verbatim>\<open>stats\<close>, and the papers seen.\<close>

record downloader =
  ss_api_key :: string
  ss_base_url :: string
  arxiv_base_url :: string
  stats_total_papers :: nat
  stats_unique_papers :: nat
  stats_downloaded :: nat
  stats_already_existed :: nat
  stats_failed :: nat
  unique_papers :: "(string \<times> paper) list"
  downloaded_papers :: "paper list"
  failed_papers :: "paper list"

definition PaperDownloader :: "string \<Rightarrow> downloader" where
  "PaperDownloader semantic_scholar_api_key =
     \<lparr>ss_api_key = semantic_scholar_api_key,
      ss_base_url = ''https://api.semanticscholar.org/graph/v1'',
      arxiv_base_url = ''http://export.arxiv.org/api/query'',
      stats_total_papers = 0, stats_unique_papers = 0, stats_downloaded = 0,
      stats_already_existed = 0, stats_failed = 0,
      unique_papers = [], downloaded_papers = [], failed_papers = []\<rparr>"

text \<open>The method returns the dictionary; the second component is what it prints.\<close>

definition parse_papers_from_main_readme :: "downloader \<Rightarrow> string \<Rightarrow> sections \<times> string list" where
  "parse_papers_from_main_readme self content =
     (if content = [] then ([], [])
      else
        (let st = parse_lines
              \<lparr>current_section = None, sections = empty_sections, printed = []\<rparr>
              (split_lines content)
         in (sections st, printed st)))"

section \<open>File names and fingerprints\<close>

subsection \<open>\<^verbatim>\<open>sanitize_filename\<close>\<close>

text \<open>The characters of the class \<^verbatim>\<open>[<>:"/\\|?*]\<close>.\<close>

definition invalid_chars :: string where
  "invalid_chars = [CHR ''<'', CHR ''>'', CHR '':'', CHR 0x22, CHR ''/'', CHR 0x5C, CHR ''|'',
     CHR ''?'', CHR ''*'']"

definition sanitize_filename :: "string \<Rightarrow> string \<Rightarrow> string" where
  "sanitize_filename title0 section0 =
     (let safe_title = re_sub False (ROne (InSet (map Ch invalid_chars))) [] title0;
          safe_title = replace_char (CHR 0x0D) CHR '' '' (replace_char newline CHR '' '' safe_title);
          safe_title = re_sub False (RPlus SpaceCh) ''_'' (strip safe_title);
          safe_title = (if length safe_title > 80 then take 80 safe_title else safe_title);
          safe_title = (if section0 \<noteq> [] then section0 @ ''_'' @ safe_title else safe_title)
      in safe_title @ ''.pdf'')"

subsection \<open>\<^verbatim>\<open>clean_title\<close>\<close>

definition clean_title :: "string \<Rightarrow> string" where
  "clean_title title0 = re_sub False (ROne (NotInSet [WordCh, SpaceCh])) [] (strip (lower title0))"

subsection \<open>\<^verbatim>\<open>generate_paper_hash\<close>\<close>

text \<open>
  The fingerprint is \<^verbatim>\<open>hashlib.md5(hash_input.encode()).hexdigest()\<close>. The two library
  functions are modelled by what they compute: \<^verbatim>\<open>str.encode\<close> is UTF-8, which gives one
  byte for a code point below 128 and two bytes for the others up to 255, and MD5 is the
  algorithm of RFC 1321 on 32-bit words.
\<close>

unbundle bit_operations_syntax

type_synonym byte = "8 word"
type_synonym u32 = "32 word"

definition encode :: "string \<Rightarrow> byte list" where
  "encode s = concat (map (\<lambda>c. let b = (of_char c :: byte) in
      if b < 0x80 then [b] else [0xC0 OR drop_bit 6 b, 0x80 OR (b AND 0x3F)]) s)"

text \<open>The shift of each of the 64 steps, and the constants \<open>\<lfloor>2\<^sup>3\<^sup>2 \<times> |sin (i + 1)|\<rfloor>\<close>.\<close>

definition md5_s :: "nat list" where
  "md5_s = [7, 12, 17, 22, 7, 12, 17, 22, 7, 12, 17, 22, 7, 12, 17, 22,
            5, 9, 14, 20, 5, 9, 14, 20, 5, 9, 14, 20, 5, 9, 14, 20,
            4, 11, 16, 23, 4, 11, 16, 23, 4, 11, 16, 23, 4, 11, 16, 23,
            6, 10, 15, 21, 6, 10, 15, 21, 6, 10, 15, 21, 6, 10, 15, 21]"

definition md5_K :: "u32 list" where
  "md5_K = [0xd76aa478, 0xe8c7b756, 0x242070db, 0xc1bdceee, 0xf57c0faf, 0x4787c62a, 0xa8304613, 0xfd469501,
            0x698098d8, 0x8b44f7af, 0xffff5bb1, 0x895cd7be, 0x6b901122, 0xfd987193, 0xa679438e, 0x49b40821,
            0xf61e2562, 0xc040b340, 0x265e5a51, 0xe9b6c7aa, 0xd62f105d, 0x02441453, 0xd8a1e681, 0xe7d3fbc8,
            0x21e1cde6, 0xc33707d6, 0xf4d50d87, 0x455a14ed, 0xa9e3e905, 0xfcefa3f8, 0x676f02d9, 0x8d2a4c8a,
            0xfffa3942, 0x8771f681, 0x6d9d6122, 0xfde5380c, 0xa4beea44, 0x4bdecfa9, 0xf6bb4b60, 0xbebfbc70,
            0x289b7ec6, 0xeaa127fa, 0xd4ef3085, 0x04881d05, 0xd9d4d039, 0xe6db99e5, 0x1fa27cf8, 0xc4ac5665,
            0xf4292244, 0x432aff97, 0xab9423a7, 0xfc93a039, 0x655b59c3, 0x8f0ccc92, 0xffeff47d, 0x85845dd1,
            0x6fa87e4f, 0xfe2ce6e0, 0xa3014314, 0x4e0811a1, 0xf7537e82, 0xbd3af235, 0x2ad7d2bb, 0xeb86d391]"

definition rotl :: "nat \<Rightarrow> u32 \<Rightarrow> u32" where
  "rotl n x = (push_bit n x) OR (drop_bit (32 - n) x)"

text \<open>One of the 64 steps on the state \<open>(A, B, C, D)\<close>, for the 16 words \<open>M\<close> of a block.\<close>

definition md5_step :: "u32 list \<Rightarrow> u32 \<times> u32 \<times> u32 \<times> u32 \<Rightarrow> nat \<Rightarrow> u32 \<times> u32 \<times> u32 \<times> u32" where
  "md5_step M st i =
     (case st of (A, B, C, D) \<Rightarrow>
        let (F, g) =
              (if i < 16 then ((B AND C) OR (NOT B AND D), i)
               else if i < 32 then ((D AND B) OR (NOT D AND C), (5 * i + 1) mod 16)
               else if i < 48 then (B XOR C XOR D, (3 * i + 5) mod 16)
               else (C XOR (B OR NOT D), (7 * i) mod 16));
            F = F + A + md5_K ! i + M ! g
        in (D, B + rotl (md5_s ! i) F, B, C))"

text \<open>Words and bytes, least significant byte first.\<close>

definition le_word :: "byte list \<Rightarrow> u32" where
  "le_word bs = ucast (bs ! 0) OR push_bit 8 (ucast (bs ! 1)) OR push_bit 16 (ucast (bs ! 2)) OR
     push_bit 24 (ucast (bs ! 3))"

definition block_words :: "byte list \<Rightarrow> u32 list" where
  "block_words block = map (\<lambda>j. le_word (take 4 (drop (4 * j) block))) [0..<16]"

definition le_bytes32 :: "u32 \<Rightarrow> byte list" where
  "le_bytes32 x = map (\<lambda>j. ucast (drop_bit (8 * j) x)) [0..<4]"

definition le_bytes64 :: "64 word \<Rightarrow> byte list" where
  "le_bytes64 x = map (\<lambda>j. ucast (drop_bit (8 * j) x)) [0..<8]"

text \<open>The message, the byte \<open>0x80\<close>, zero bytes up to 56 modulo 64, and the length in bits.\<close>

definition md5_pad :: "byte list \<Rightarrow> byte list" where
  "md5_pad msg =
     msg @ [0x80] @ replicate ((119 - length msg mod 64) mod 64) 0 @
     le_bytes64 (8 * of_nat (length msg))"

definition md5_block :: "u32 \<times> u32 \<times> u32 \<times> u32 \<Rightarrow> byte list \<Rightarrow> u32 \<times> u32 \<times> u32 \<times> u32" where
  "md5_block h block =
     (case h of (a0, b0, c0, d0) \<Rightarrow>
        case foldl (md5_step (block_words block)) h [0..<64] of (A, B, C, D) \<Rightarrow>
          (a0 + A, b0 + B, c0 + C, d0 + D))"

definition md5_digest :: "byte list \<Rightarrow> byte list" where
  "md5_digest msg =
     (let padded = md5_pad msg;
          blocks = map (\<lambda>k. take 64 (drop (64 * k) padded)) [0..<length padded div 64]
      in case foldl md5_block (0x67452301, 0xefcdab89, 0x98badcfe, 0x10325476) blocks of
           (a, b, c, d) \<Rightarrow> concat (map le_bytes32 [a, b, c, d]))"

definition hex_digit :: "byte \<Rightarrow> char" where
  "hex_digit n = ''0123456789abcdef'' ! unat n"

definition hexdigest :: "byte list \<Rightarrow> string" where
  "hexdigest bs = concat (map (\<lambda>b. [hex_digit (drop_bit 4 b), hex_digit (b AND 0x0F)]) bs)"

definition md5 :: "byte list \<Rightarrow> string" where
  "md5 msg = hexdigest (md5_digest msg)"

text \<open>
  \<^verbatim>\<open>authors\<close> is \<open>None\<close> for Python's \<^verbatim>\<open>None\<close>, the default. \<^verbatim>\<open>if authors\<close> fails for
  \<^verbatim>\<open>None\<close> and for the empty list, and \<^verbatim>\<open>if a\<close> drops the empty names. \<^verbatim>\<open>sorted\<close>
  orders the names as lists of code points.
\<close>

definition generate_paper_hash :: "string \<Rightarrow> string list option \<Rightarrow> string" where
  "generate_paper_hash title0 authors =
     (let clean_title = clean_title title0;
          hash_input =
            (case authors of
               None \<Rightarrow> clean_title
             | Some as \<Rightarrow>
                 if as = [] then clean_title
                 else (let author_str = concat (sort (map (\<lambda>a. strip (lower a)) (filter (\<lambda>a. a \<noteq> []) as)))
                       in clean_title @ ''_'' @ author_str))
      in md5 (encode hash_input))"

section \<open>Notions used to state the properties\<close>

text \<open>The cleanup that ends \<^const>\<open>extract_title_from_line\<close>: bold markers removed, runs of
  whitespace replaced by one space, ends trimmed.\<close>

definition cleanup :: "string \<Rightarrow> string" where
  "cleanup t = strip (re_sub False (RPlus SpaceCh) '' '' (re_sub False (RLit ''**'') [] t))"

text \<open>The title without its bold markers: every \<^verbatim>\<open>**\<close> deleted, from the left.\<close>

fun remove_bold :: "string \<Rightarrow> string" where
  "remove_bold [] = []"
| "remove_bold [a] = [a]"
| "remove_bold (a # b # cs) =
     (if a = CHR ''*'' \<and> b = CHR ''*'' then remove_bold cs else a # remove_bold (b # cs))"

text \<open>A text is trimmed when it has no whitespace at its ends.\<close>

definition trimmed :: "string \<Rightarrow> bool" where
  "trimmed s = (s = [] \<or> (\<not> isspace (hd s) \<and> \<not> isspace (last s)))"

text \<open>
  The forms of a line that the extraction of the title looks for. A text opens with a
  parenthetical and a bracketed segment when it is optional whitespace, \<^verbatim>\<open>(\<close>, a
  parenthetical that is not empty and has no \<^verbatim>\<open>)\<close>, \<^verbatim>\<open>)\<close>, optional whitespace, \<^verbatim>\<open>[\<close>, a
  bracketed segment without a line break, \<^verbatim>\<open>]\<close>, and anything after that. A line has
  the form \<^verbatim>\<open><text> (<parenthetical>) [<bracketed>]\<close> when a text that is not empty and
  has no line break is followed by such an opening.
\<close>

definition paren_bracket_tail :: "string \<Rightarrow> bool" where
  "paren_bracket_tail s =
     (\<exists>sp1 par sp2 br rest.
        s = sp1 @ ''('' @ par @ '')'' @ sp2 @ ''['' @ br @ '']'' @ rest \<and>
        (\<forall>c\<in>set sp1. isspace c) \<and> par \<noteq> [] \<and> CHR '')'' \<notin> set par \<and>
        (\<forall>c\<in>set sp2. isspace c) \<and> newline \<notin> set br)"

definition paren_bracket_form :: "string \<Rightarrow> bool" where
  "paren_bracket_form s =
     (\<exists>t X. s = t @ X \<and> t \<noteq> [] \<and> newline \<notin> set t \<and> paren_bracket_tail X)"

text \<open>
  A text closes a label and gives a url when it is \<^verbatim>\<open>](\<close>, a url that is not empty and
  has no \<^verbatim>\<open>)\<close>, \<^verbatim>\<open>)\<close>, and anything after that. A markdown link \<^verbatim>\<open>[<label>](<url>)\<close>
  opens a text when the text is \<^verbatim>\<open>[\<close>, a label that is not empty and has no line break,
  and such a closing.
\<close>

definition link_tail :: "string \<Rightarrow> bool" where
  "link_tail s = (\<exists>url rest. s = '']'' @ ''('' @ url @ '')'' @ rest \<and> url \<noteq> [] \<and> CHR '')'' \<notin> set url)"

definition link_form :: "string \<Rightarrow> bool" where
  "link_form s =
     (\<exists>label X. s = ''['' @ label @ X \<and> label \<noteq> [] \<and> newline \<notin> set label \<and> link_tail X)"

text \<open>Every run of whitespace replaced by \<open>repl\<close>: what \<^verbatim>\<open>re.sub(r'\s+', repl, s)\<close>
  computes, written as a recursion over the text.\<close>

function collapse :: "string \<Rightarrow> string \<Rightarrow> string" where
  "collapse repl [] = []"
| "collapse repl (c # cs) =
     (if isspace c then repl @ collapse repl (dropWhile isspace cs) else c # collapse repl cs)"
  by pat_completeness auto
termination
  by (relation "measure (\<lambda>(repl, s). length s)") (auto simp: length_dropWhile_le less_Suc_eq_le)

text \<open>A line is a header line when it opens one of the configured sections.\<close>

definition header_line :: "string \<Rightarrow> bool" where
  "header_line line = (\<exists>name \<in> set section_names. is_header (strip line) name)"

text \<open>The number of records of a result, over all its sections.\<close>

definition paper_count :: "sections \<Rightarrow> nat" where
  "paper_count secs = sum_list (map (\<lambda>(k, ps). length ps) secs)"

text \<open>
  The lines that are classified as paper title lines while a section is open, in the order
  of the document: the first argument tells whether a section is open before the lines.
\<close>

fun candidate_lines :: "bool \<Rightarrow> string list \<Rightarrow> string list" where
  "candidate_lines active [] = []"
| "candidate_lines active (line # lines) =
     (if header_line line then candidate_lines True lines
      else if active \<and> is_paper_title_line (strip line) then line # candidate_lines active lines
      else candidate_lines active lines)"

text \<open>The first of the skip patterns, \<^verbatim>\<open>^authors?:\<close>.\<close>

definition authors_pattern :: regex where
  "authors_pattern = RSeq [RLit ''author'', ROpt (Ch CHR ''s''), RLit '':'']"

text \<open>The records of a result lie under the key of their section, and each comes from a
  line that passed \<^const>\<open>is_paper_title_line\<close> and whose title passed the final validation.\<close>

definition records_ok :: "sections \<Rightarrow> bool" where
  "records_ok secs =
     (\<forall>(k, ps) \<in> set secs. \<forall>p \<in> set ps.
        paper_section p = k \<and> is_paper_title_line (strip (raw_line p)) \<and>
        title p = extract_title_from_line (strip (raw_line p)) \<and> valid_title (title p))"

text \<open>The invariant of the loop: the keys are the configured names, and the open section is
  one of them.\<close>

definition wf_state :: "pstate \<Rightarrow> bool" where
  "wf_state st =
     (map fst (sections st) = section_names \<and>
      (\<forall>c. current_section st = Some c \<longrightarrow> c \<in> set section_names))"

section \<open>Properties of the parser\<close>

subsection \<open>The loop over the lines\<close>

lemma lstrip_strip: "lstrip (strip s) = strip s"
proof -
  define t where "t = dropWhile isspace s"
  define r where "r = rev (dropWhile isspace (rev t))"
  have t_split: "t = r @ rev (takeWhile isspace (rev t))"
    unfolding r_def by (metis rev_append rev_rev_ident takeWhile_dropWhile_id)
  have "dropWhile isspace r = r"
  proof (cases r)
    case Nil then show ?thesis by simp
  next
    case (Cons a u)
    with t_split have ta: "t = a # (u @ rev (takeWhile isspace (rev t)))" by simp
    have "t \<noteq> []" "hd t = a" by (metis ta list.distinct(1), metis ta list.sel(1))
    then have "\<not> isspace a" unfolding t_def by (metis hd_dropWhile)
    then show ?thesis using Cons by simp
  qed
  then show ?thesis by (simp add: strip_def lstrip_def r_def t_def)
qed

lemma strip_idem: "strip (strip s) = strip s"
proof -
  have "strip (strip s) = rev (lstrip (rev (strip s)))"
    by (simp add: strip_def[of "strip s"] lstrip_strip)
  also have "\<dots> = strip s" by (simp add: strip_def lstrip_def)
  finally show ?thesis .
qed

lemma find_None_header: "find (is_header (strip line)) section_names = None \<longleftrightarrow> \<not> header_line line"
  by (auto simp: find_None_iff header_line_def)

lemma fst_append_paper [simp]: "map fst (append_paper k p secs) = map fst secs"
  by (induction secs) (auto simp: append_paper_def)

lemma keys_parse_line [simp]: "map fst (sections (parse_line st line)) = map fst (sections st)"
  by (simp add: parse_line_def Let_def split: option.splits)

lemma keys_parse_lines [simp]: "map fst (sections (parse_lines st ls)) = map fst (sections st)"
  by (induction ls arbitrary: st) auto

lemma parse_line_no_section:
  assumes "current_section st = None" "\<not> header_line line" "map fst (sections st) = section_names"
  shows "parse_line st line = st"
  using assms by (simp add: parse_line_def Let_def find_None_header split: option.splits)

lemma parse_lines_no_header:
  assumes "current_section st = None" "\<forall>line\<in>set ls. \<not> header_line line" "map fst (sections st) = section_names"
  shows "parse_lines st ls = st"
  using assms by (induction ls arbitrary: st) (auto simp: parse_line_no_section)

lemma keys_empty_sections: "map fst empty_sections = section_names"
  by (simp add: empty_sections_def comp_def)

lemma distinct_section_names: "distinct section_names"
  by (simp add: section_names_def)

lemma section_names_nonempty: "c \<in> set section_names \<Longrightarrow> c \<noteq> []"
  by (auto simp: section_names_def)

lemma paper_count_append:
  "distinct (map fst secs) \<Longrightarrow> k \<in> set (map fst secs) \<Longrightarrow>
   paper_count (append_paper k p secs) = Suc (paper_count secs)"
proof (induction secs)
  case Nil then show ?case by simp
next
  case (Cons a secs)
  obtain k' ps where a: "a = (k', ps)" by (cases a)
  show ?case
  proof (cases "k' = k")
    case True
    with Cons.prems a have "k \<notin> set (map fst secs)" by auto
    then have "append_paper k p secs = secs"
      by (induction secs) (auto simp: append_paper_def)
    then have "map (\<lambda>(k', ps). if k' = k then (k', ps @ [p]) else (k', ps)) secs = secs"
      by (simp add: append_paper_def)
    with True a show ?thesis by (simp add: paper_count_def append_paper_def)
  next
    case False
    with Cons a have "paper_count (append_paper k p secs) = Suc (paper_count secs)" by auto
    with False a show ?thesis by (simp add: paper_count_def append_paper_def)
  qed
qed

lemma find_header_Some:
  "find (is_header (strip line)) section_names = Some n \<Longrightarrow> n \<in> set section_names \<and> header_line line"
  by (auto simp: find_Some_iff header_line_def)

lemma header_line_find:
  "header_line line \<Longrightarrow> \<exists>n. find (is_header (strip line)) section_names = Some n"
  by (metis find_None_header not_Some_eq)

lemma wf_parse_line: "wf_state st \<Longrightarrow> wf_state (parse_line st line)"
  by (auto simp: wf_state_def parse_line_def Let_def dest: find_header_Some split: option.splits)

lemma parse_line_header:
  assumes "wf_state st" "header_line line"
  shows "sections (parse_line st line) = sections st" "current_section (parse_line st line) \<noteq> None"
  using assms header_line_find[of line]
  by (auto simp: wf_state_def parse_line_def Let_def)

lemma parse_line_other:
  assumes "wf_state st" "\<not> header_line line"
  shows "current_section (parse_line st line) = current_section st"
    and "sections (parse_line st line) =
      (case current_section st of
         None \<Rightarrow> sections st
       | Some cur \<Rightarrow>
           if is_paper_title_line (strip line) \<and> valid_title (extract_title_from_line (strip line))
           then append_paper cur \<lparr>title = extract_title_from_line (strip line), paper_section = cur,
                  raw_line = line\<rparr> (sections st)
           else sections st)"
proof -
  have f: "find (is_header (strip line)) (map fst (sections st)) = None"
    using assms by (simp add: wf_state_def find_None_header)
  show "current_section (parse_line st line) = current_section st"
    by (simp add: parse_line_def Let_def f split: option.splits)
  show "sections (parse_line st line) =
      (case current_section st of
         None \<Rightarrow> sections st
       | Some cur \<Rightarrow>
           if is_paper_title_line (strip line) \<and> valid_title (extract_title_from_line (strip line))
           then append_paper cur \<lparr>title = extract_title_from_line (strip line), paper_section = cur,
                  raw_line = line\<rparr> (sections st)
           else sections st)"
    using assms(1) section_names_nonempty f
    by (auto simp: wf_state_def parse_line_def Let_def split: option.splits)
qed

lemma count_parse_lines:
  "wf_state st \<Longrightarrow>
   paper_count (sections (parse_lines st ls)) =
     paper_count (sections st) +
     length (filter (\<lambda>l. valid_title (extract_title_from_line (strip l)))
       (candidate_lines (current_section st \<noteq> None) ls))"
proof (induction ls arbitrary: st)
  case Nil then show ?case by simp
next
  case (Cons line ls)
  note wf = \<open>wf_state st\<close>
  have wf': "wf_state (parse_line st line)" using wf by (rule wf_parse_line)
  note IH = Cons.IH[OF wf']
  show ?case
  proof (cases "header_line line")
    case True
    then show ?thesis using IH parse_line_header[OF wf True] by simp
  next
    case False
    note po = parse_line_other[OF wf False]
    show ?thesis
    proof (cases "current_section st")
      case None
      then show ?thesis using IH po False by simp
    next
      case (Some cur)
      then have "cur \<in> set (map fst (sections st))" "distinct (map fst (sections st))"
        using wf distinct_section_names by (auto simp: wf_state_def)
      then have "\<And>p. paper_count (append_paper cur p (sections st)) = Suc (paper_count (sections st))"
        by (simp add: paper_count_append)
      then show ?thesis using IH po False Some by simp
    qed
  qed
qed

lemma records_ok_append:
  "records_ok secs \<Longrightarrow> is_paper_title_line (strip line) \<Longrightarrow>
   valid_title (extract_title_from_line (strip line)) \<Longrightarrow>
   records_ok (append_paper cur \<lparr>title = extract_title_from_line (strip line), paper_section = cur,
                  raw_line = line\<rparr> secs)"
  by (fastforce simp: records_ok_def append_paper_def split: if_splits)

lemma records_ok_parse_line:
  "wf_state st \<Longrightarrow> records_ok (sections st) \<Longrightarrow> records_ok (sections (parse_line st line))"
  using parse_line_header(1)[of st line] parse_line_other(2)[of st line]
  by (cases "header_line line") (auto simp: records_ok_append split: option.splits)

lemma records_ok_parse_lines:
  "wf_state st \<Longrightarrow> records_ok (sections st) \<Longrightarrow> records_ok (sections (parse_lines st ls))"
  by (induction ls arbitrary: st) (auto simp: records_ok_parse_line wf_parse_line)

lemma wf_initial: "wf_state \<lparr>current_section = None, sections = empty_sections, printed = []\<rparr>"
  by (simp add: wf_state_def keys_empty_sections)

lemma records_ok_initial: "records_ok empty_sections"
  by (auto simp: records_ok_def empty_sections_def)

lemma records_ok_parse: "records_ok (fst (parse_papers_from_main_readme self content))"
  using records_ok_parse_lines[OF wf_initial] records_ok_initial
  by (simp add: parse_papers_from_main_readme_def Let_def records_ok_def)

lemma keys_parse:
  "content \<noteq> [] \<Longrightarrow> map fst (fst (parse_papers_from_main_readme self content)) = section_names"
  by (simp add: parse_papers_from_main_readme_def Let_def keys_empty_sections)

lemma candidate_empty_doc: "candidate_lines False (split_lines []) = []"
  by code_simp

lemma authors_in_skip: "authors_pattern \<in> set skip_patterns"
  by (simp add: authors_pattern_def skip_patterns_def)

lemma skip_not_title:
  assumes "pattern \<in> set skip_patterns" "re_match True pattern (strip line) \<noteq> None"
  shows "\<not> is_paper_title_line (strip line)"
proof -
  have "\<exists>pattern \<in> set skip_patterns. re_match True pattern (strip line) \<noteq> None"
    using assms by blast
  then show ?thesis
    by (simp add: is_paper_title_line_def Let_def strip_idem)
qed

subsection \<open>What a header pattern matches\<close>

lemma one_elem: "r \<in> set (one p s) \<Longrightarrow> \<exists>c. s = c # r \<and> p c"
  by (cases s) (auto split: if_splits)

lemma greedy_elem: "r \<in> set (greedy p s) \<Longrightarrow> \<exists>pre. s = pre @ r \<and> (\<forall>c\<in>set pre. p c)"
proof (induction s)
  case Nil then show ?case by simp
next
  case (Cons a s)
  show ?case
  proof (cases "r = a # s")
    case True then show ?thesis by (intro exI[of _ "[]"]) simp
  next
    case False
    with Cons.prems have pa: "p a" and "r \<in> set (greedy p s)" by (auto split: if_splits)
    with Cons.IH obtain pre where "s = pre @ r" "\<forall>c\<in>set pre. p c" by blast
    with pa show ?thesis by (intro exI[of _ "a # pre"]) simp
  qed
qed

lemma plus_elem:
  "r \<in> set (concat (map (greedy p) (one p s))) \<Longrightarrow>
   \<exists>pre. pre \<noteq> [] \<and> s = pre @ r \<and> (\<forall>c\<in>set pre. p c)"
proof -
  assume "r \<in> set (concat (map (greedy p) (one p s)))"
  then obtain s1 where s1: "s1 \<in> set (one p s)" and r: "r \<in> set (greedy p s1)" by auto
  from one_elem[OF s1] obtain c where c: "s = c # s1" "p c" by blast
  from greedy_elem[OF r] obtain pre where "s1 = pre @ r" "\<forall>c\<in>set pre. p c" by blast
  with c show ?thesis by (intro exI[of _ "c # pre"]) simp
qed



















lemma literal_key_is_no_header: "\<not> header_line ''### Test-of-Time-Papers''"
  by code_simp

subsection \<open>Substitution of single characters and of whitespace\<close>

lemma re_sub_Nil: "re_match ic r [] = None \<Longrightarrow> re_sub ic r repl [] = []"
  by (subst re_sub.simps) simp

lemma re_sub_None: "re_match ic r (c # cs) = None \<Longrightarrow> re_sub ic r repl (c # cs) = c # re_sub ic r repl cs"
  by (subst re_sub.simps) simp

lemma re_sub_Some:
  "re_match ic r s = Some m \<Longrightarrow> length (after m) < length s \<Longrightarrow>
   re_sub ic r repl s = repl @ re_sub ic r repl (after m)"
  by (subst re_sub.simps) simp

lemma re_match_one:
  "re_match ic (ROne k) s =
     (case s of [] \<Rightarrow> None
      | c # cs \<Rightarrow> if cmatch ic k c then Some \<lparr>group1 = None, after = cs\<rparr> else None)"
  by (cases s) (auto simp: re_match_def)

lemma re_sub_one: "re_sub ic (ROne k) [] s = filter (\<lambda>c. \<not> cmatch ic k c) s"
proof (induction s)
  case Nil
  show ?case by (simp add: re_sub_Nil re_match_one)
next
  case (Cons c cs)
  show ?case
  proof (cases "cmatch ic k c")
    case True
    then have "re_match ic (ROne k) (c # cs) = Some \<lparr>group1 = None, after = cs\<rparr>"
      by (simp add: re_match_one)
    from re_sub_Some[OF this, of "[]"] Cons True show ?thesis by simp
  next
    case False
    then have "re_match ic (ROne k) (c # cs) = None" by (simp add: re_match_one)
    from re_sub_None[OF this, of "[]"] Cons False show ?thesis by simp
  qed
qed

lemma greedy_hd: "\<exists>rest. greedy p s = dropWhile p s # rest"
  by (induction s) auto

lemma re_match_plus:
  "re_match ic (RPlus k) s =
     (case s of [] \<Rightarrow> None
      | c # cs \<Rightarrow> if cmatch ic k c
                  then Some \<lparr>group1 = None, after = dropWhile (cmatch ic k) cs\<rparr> else None)"
proof (cases s)
  case Nil then show ?thesis by (simp add: re_match_def)
next
  case (Cons c cs)
  obtain rest where "greedy (cmatch ic k) cs = dropWhile (cmatch ic k) cs # rest"
    using greedy_hd by blast
  with Cons show ?thesis by (simp add: re_match_def)
qed

lemma re_sub_spaces: "re_sub ic (RPlus SpaceCh) repl s = collapse repl s"
proof (induction repl s rule: collapse.induct)
  case (1 repl)
  show ?case by (simp add: re_sub_Nil re_match_plus)
next
  case (2 repl c cs)
  show ?case
  proof (cases "isspace c")
    case True
    then have m: "re_match ic (RPlus SpaceCh) (c # cs) =
        Some \<lparr>group1 = None, after = dropWhile isspace cs\<rparr>"
      by (simp add: re_match_plus) (metis cmatch.simps(3))
    have "length (dropWhile isspace cs) < length (c # cs)"
      by (simp add: length_dropWhile_le less_Suc_eq_le)
    with re_sub_Some[OF m, of repl] 2 True show ?thesis by simp
  next
    case False
    then have "re_match ic (RPlus SpaceCh) (c # cs) = None" by (simp add: re_match_plus)
    from re_sub_None[OF this, of repl] 2 False show ?thesis by simp
  qed
qed

lemma set_collapse:
  "set (collapse repl s) \<subseteq> set repl \<union> {c \<in> set s. \<not> isspace c}"
proof (induction repl s rule: collapse.induct)
  case (1 repl) show ?case by simp
next
  case (2 repl c cs)
  have "set (dropWhile isspace cs) \<subseteq> set cs" by (rule set_dropWhileD[THEN subsetI]) 
  with 2 show ?case by (cases "isspace c") auto
qed

lemma set_strip: "set (strip s) \<subseteq> set s"
proof -
  have "\<And>P (xs::string). set (dropWhile P xs) \<subseteq> set xs" by (rule subsetI) (rule set_dropWhileD)
  then show ?thesis unfolding strip_def lstrip_def
    by (metis (no_types, lifting) set_rev subset_trans)
qed

lemma underscore_no_space: "\<not> isspace CHR ''_''"
  by code_simp

lemma underscore_valid: "CHR ''_'' \<notin> set invalid_chars"
  by code_simp

lemma space_valid: "CHR '' '' \<notin> set invalid_chars"
  by code_simp

lemma invalid_class: "cmatch False (InSet (map Ch invalid_chars)) c \<longleftrightarrow> c \<in> set invalid_chars"
  by (induction invalid_chars) auto

subsection \<open>The claims about the parser\<close>

text \<open>
  C3. On the document with the header \<^verbatim>\<open>#### CVPR\<close>, the line
  \<^verbatim>\<open>Awesome Detection Method (CVPR 2023) [Paper]\<close> and the header \<^verbatim>\<open>#### ICLR\<close>, the
  result has exactly one record under \<^verbatim>\<open>CVPR\<close>, with the title
  \<^verbatim>\<open>Awesome Detection Method\<close> and the section \<^verbatim>\<open>CVPR\<close>, and no record under
  \<^verbatim>\<open>ICLR\<close> or any other key.
\<close>

theorem parse_cvpr_example:
  "fst (parse_papers_from_main_readme self
     (''#### CVPR'' @ [newline] @ ''Awesome Detection Method (CVPR 2023) [Paper]'' @ [newline] @
      ''#### ICLR'' @ [newline])) =
   [(''CVPR'', [\<lparr>title = ''Awesome Detection Method'', paper_section = ''CVPR'',
                 raw_line = ''Awesome Detection Method (CVPR 2023) [Paper]''\<rparr>]),
    (''ICLR'', []), (''NeurIPS'', []), (''ICCV'', []), (''ICML'', []), (''ECCV'', []),
    (''AAAI'', []), (''WACV'', []), (''BMVC'', []), (''Test-of-Time-Papers'', [])]"
  unfolding parse_papers_from_main_readme_def by code_simp

text \<open>
  C1, as the code has it. A document that is not empty and has no header line gives every
  configured section name, in the configured order, bound to the empty sequence. For the
  empty document the guard at the head of the method returns the empty dictionary, with no
  key at all.
\<close>

theorem no_header_all_empty:
  "(content \<noteq> [] \<longrightarrow> (\<forall>line \<in> set (split_lines content). \<not> header_line line) \<longrightarrow>
      fst (parse_papers_from_main_readme self content) = map (\<lambda>name. (name, [])) section_names)
   \<and> fst (parse_papers_from_main_readme self []) = []"
  using parse_lines_no_header[of "\<lparr>current_section = None, sections = empty_sections, printed = []\<rparr>" "split_lines content"]
  by (simp add: parse_papers_from_main_readme_def keys_empty_sections Let_def) (simp add: empty_sections_def)

theorem no_header_all_empty_witness:
  "''Intro text'' \<noteq> [] \<and> \<not> header_line ''Intro text'' \<and>
   fst (parse_papers_from_main_readme (PaperDownloader []) ''Intro text'') =
     map (\<lambda>name. (name, [])) section_names"
proof -
  have h: "\<not> header_line ''Intro text''" by code_simp
  have s: "split_lines ''Intro text'' = [''Intro text'']" by code_simp
  show ?thesis using h s no_header_all_empty[of "''Intro text''" "PaperDownloader []"] by simp
qed

text \<open>C1 as stated fails on the empty document: the key \<^verbatim>\<open>CVPR\<close> is not in the result.\<close>

theorem empty_document_counterexample:
  "map_of (fst (parse_papers_from_main_readme (PaperDownloader []) [])) ''CVPR'' = None"
  by (simp add: parse_papers_from_main_readme_def)

text \<open>
  C2, as the code has it. The number of records of the result is the number of lines that
  are classified as paper title lines while a section is open and whose extracted title
  passes the final validation; it is at most the number of lines so classified. Every
  record lies under a configured section name, which is the section it carries.
\<close>

theorem paper_count_accepted_candidates:
  "paper_count (fst (parse_papers_from_main_readme self content)) =
     length (filter (\<lambda>l. valid_title (extract_title_from_line (strip l)))
       (candidate_lines False (split_lines content)))
   \<and> paper_count (fst (parse_papers_from_main_readme self content)) \<le>
       length (candidate_lines False (split_lines content))
   \<and> (\<forall>(k, ps) \<in> set (fst (parse_papers_from_main_readme self content)).
        k \<in> set section_names \<and> (\<forall>p \<in> set ps. paper_section p = k))"
proof -
  have c: "paper_count (fst (parse_papers_from_main_readme self content)) =
     length (filter (\<lambda>l. valid_title (extract_title_from_line (strip l)))
       (candidate_lines False (split_lines content)))"
  proof (cases "content = []")
    case True
    then show ?thesis
      by (simp add: parse_papers_from_main_readme_def paper_count_def candidate_empty_doc del: split_lines.simps)
  next
    case False
    have "paper_count empty_sections = 0" by (simp add: paper_count_def empty_sections_def)
    then show ?thesis using False count_parse_lines[OF wf_initial, of "split_lines content"]
      by (simp add: parse_papers_from_main_readme_def Let_def)
  qed
  have k: "\<forall>(k, ps) \<in> set (fst (parse_papers_from_main_readme self content)). k \<in> set section_names"
  proof (cases "content = []")
    case True then show ?thesis by (simp add: parse_papers_from_main_readme_def)
  next
    case False
    show ?thesis
    proof (clarify)
      fix k ps assume "(k, ps) \<in> set (fst (parse_papers_from_main_readme self content))"
      then have "k \<in> fst ` set (fst (parse_papers_from_main_readme self content))" by force
      then have "k \<in> set (map fst (fst (parse_papers_from_main_readme self content)))" by simp
      then show "k \<in> set section_names" by (simp only: keys_parse[OF False])
    qed
  qed
  show ?thesis using c k records_ok_parse[of self content]
    by (auto simp: records_ok_def)
qed

theorem paper_count_accepted_candidates_witness:
  "paper_count (fst (parse_papers_from_main_readme (PaperDownloader [])
     (''#### CVPR'' @ [newline] @ ''Awesome Detection Method (CVPR 2023) [Paper]''))) = 1 \<and>
   length (candidate_lines False
     (split_lines (''#### CVPR'' @ [newline] @ ''Awesome Detection Method (CVPR 2023) [Paper]''))) = 1"
proof -
  have c: "candidate_lines False
     (split_lines (''#### CVPR'' @ [newline] @ ''Awesome Detection Method (CVPR 2023) [Paper]'')) =
     [''Awesome Detection Method (CVPR 2023) [Paper]'']" by code_simp
  have v: "valid_title (extract_title_from_line (strip ''Awesome Detection Method (CVPR 2023) [Paper]''))"
    by code_simp
  have "paper_count (fst (parse_papers_from_main_readme (PaperDownloader [])
     (''#### CVPR'' @ [newline] @ ''Awesome Detection Method (CVPR 2023) [Paper]''))) =
     length (filter (\<lambda>l. valid_title (extract_title_from_line (strip l)))
       (candidate_lines False (split_lines
          (''#### CVPR'' @ [newline] @ ''Awesome Detection Method (CVPR 2023) [Paper]''))))"
    using paper_count_accepted_candidates[of "PaperDownloader []"
      "''#### CVPR'' @ [newline] @ ''Awesome Detection Method (CVPR 2023) [Paper]''"]
    by (rule conjunct1)
  also have "\<dots> = 1" unfolding c using v by simp
  finally show ?thesis unfolding c by simp
qed

text \<open>C2 as stated fails where the final validation drops a candidate: the line
  \<^verbatim>\<open>Tiny (CVPR 2023) [Paper]\<close> under \<^verbatim>\<open>CVPR\<close> is classified as a paper title line, and
  its title \<^verbatim>\<open>Tiny\<close> is too short, so the result has no record.\<close>

theorem tiny_title_counterexample:
  "candidate_lines False (split_lines (''#### CVPR'' @ [newline] @ ''Tiny (CVPR 2023) [Paper]'')) =
     [''Tiny (CVPR 2023) [Paper]''] \<and>
   paper_count (fst (parse_papers_from_main_readme (PaperDownloader [])
     (''#### CVPR'' @ [newline] @ ''Tiny (CVPR 2023) [Paper]''))) = 0"
  unfolding parse_papers_from_main_readme_def by code_simp

text \<open>
  C7. A line whose stripped text matches the skip pattern \<^verbatim>\<open>^authors?:\<close> is not classified
  as a paper title line; reading it leaves the records of every state unchanged; and no
  record of any result has it as its raw line.
\<close>

theorem authors_line_no_record:
  assumes "re_match True authors_pattern (strip line) \<noteq> None"
  shows "\<not> is_paper_title_line (strip line) \<and>
         sections (parse_line st line) = sections st \<and>
         (\<forall>(k, ps) \<in> set (fst (parse_papers_from_main_readme self content)).
            \<forall>p \<in> set ps. raw_line p \<noteq> line)"
proof -
  have n: "\<not> is_paper_title_line (strip line)"
    using skip_not_title[OF authors_in_skip assms] .
  have s: "sections (parse_line st line) = sections st"
    using n by (simp add: parse_line_def Let_def split: option.splits)
  have r: "\<forall>(k, ps) \<in> set (fst (parse_papers_from_main_readme self content)).
            \<forall>p \<in> set ps. raw_line p \<noteq> line"
  proof (clarify)
    fix k ps p assume "(k, ps) \<in> set (fst (parse_papers_from_main_readme self content))" "p \<in> set ps"
      and eq: "line = raw_line p"
    with records_ok_parse[of self content] have "is_paper_title_line (strip (raw_line p))"
      unfolding records_ok_def by blast
    with n eq show False by simp
  qed
  show ?thesis using n s r by blast
qed

theorem authors_line_no_record_witness:
  "\<not> is_paper_title_line (strip ''Authors: Jane Doe, John Smith'') \<and>
   fst (parse_papers_from_main_readme (PaperDownloader [])
     (''#### CVPR'' @ [newline] @ ''Authors: Jane Doe, John Smith'')) = empty_sections"
proof -
  have h: "re_match True authors_pattern (strip ''Authors: Jane Doe, John Smith'') \<noteq> None"
    by code_simp
  have p: "fst (parse_papers_from_main_readme (PaperDownloader [])
     (''#### CVPR'' @ [newline] @ ''Authors: Jane Doe, John Smith'')) = empty_sections"
    unfolding parse_papers_from_main_readme_def by code_simp
  show ?thesis using authors_line_no_record[OF h] p by blast
qed



subsection \<open>What the two patterns of \<^const>\<open>extract_title_from_line\<close> match\<close>

lemma lazy_elem: "r \<in> set (lazy p s) \<Longrightarrow> \<exists>pre. s = pre @ r \<and> (\<forall>c\<in>set pre. p c)"
proof (induction s)
  case Nil then show ?case by simp
next
  case (Cons a s)
  show ?case
  proof (cases "r = a # s")
    case True then show ?thesis by (intro exI[of _ "[]"]) simp
  next
    case False
    with Cons.prems have pa: "p a" and "r \<in> set (lazy p s)" by (auto split: if_splits)
    with Cons.IH obtain pre where "s = pre @ r" "\<forall>c\<in>set pre. p c" by blast
    with pa show ?thesis by (intro exI[of _ "a # pre"]) simp
  qed
qed

lemma plus_lazy_elem:
  "r \<in> set (concat (map (lazy p) (one p s))) \<Longrightarrow>
   \<exists>pre. pre \<noteq> [] \<and> s = pre @ r \<and> (\<forall>c\<in>set pre. p c)"
proof -
  assume "r \<in> set (concat (map (lazy p) (one p s)))"
  then obtain s1 where s1: "s1 \<in> set (one p s)" and r: "r \<in> set (lazy p s1)" by auto
  from one_elem[OF s1] obtain c where c: "s = c # s1" "p c" by blast
  from lazy_elem[OF r] obtain pre where "s1 = pre @ r" "\<forall>c\<in>set pre. p c" by blast
  with c show ?thesis by (intro exI[of _ "c # pre"]) simp
qed

lemma literal_elem: "r \<in> set (literal False as s) \<Longrightarrow> s = as @ r"
proof (induction as arbitrary: s)
  case Nil then show ?case by simp
next
  case (Cons a as)
  then show ?case by (cases s) (auto split: if_splits)
qed

lemma seq_mem:
  "x \<in> set (rmatch_seq ic (r # rs) st) \<Longrightarrow>
   \<exists>s1 g1. (s1, g1) \<in> set (rmatch ic r st) \<and> x \<in> set (rmatch_seq ic rs (s1, g1))"
  by auto

lemma star_mem:
  "(s', g') \<in> set (rmatch ic (RStar k) (s, g)) \<Longrightarrow>
   g' = g \<and> (\<exists>pre. s = pre @ s' \<and> (\<forall>c\<in>set pre. cmatch ic k c))"
  using greedy_elem[of s' "cmatch ic k" s] by auto

lemma plus_mem:
  "(s', g') \<in> set (rmatch ic (RPlus k) (s, g)) \<Longrightarrow>
   g' = g \<and> (\<exists>pre. pre \<noteq> [] \<and> s = pre @ s' \<and> (\<forall>c\<in>set pre. cmatch ic k c))"
  using plus_elem[of s' "cmatch ic k" s] by auto

lemma star_lazy_mem:
  "(s', g') \<in> set (rmatch ic (RStarLazy k) (s, g)) \<Longrightarrow>
   g' = g \<and> (\<exists>pre. s = pre @ s' \<and> (\<forall>c\<in>set pre. cmatch ic k c))"
  using lazy_elem[of s' "cmatch ic k" s] by auto

lemma lit_mem:
  "(s', g') \<in> set (rmatch False (RLit as) (s, g)) \<Longrightarrow> g' = g \<and> s = as @ s'"
  using literal_elem[of s' as s] by auto

lemma group_plus_lazy_mem:
  "(s', g') \<in> set (rmatch ic (RGroup (RPlusLazy k)) (s, g)) \<Longrightarrow>
   \<exists>pre. pre \<noteq> [] \<and> s = pre @ s' \<and> g' = Some pre \<and> (\<forall>c\<in>set pre. cmatch ic k c)"
proof -
  assume "(s', g') \<in> set (rmatch ic (RGroup (RPlusLazy k)) (s, g))"
  then have r: "s' \<in> set (concat (map (lazy (cmatch ic k)) (one (cmatch ic k) s)))"
    and g': "g' = Some (take (length s - length s') s)" by auto
  from plus_lazy_elem[OF r] obtain pre where p: "pre \<noteq> []" "s = pre @ s'" "\<forall>c\<in>set pre. cmatch ic k c"
    by blast
  with g' show ?thesis by (intro exI[of _ pre]) simp
qed

lemma re_match_Some_mem:
  "re_match ic r s = Some m \<Longrightarrow> (after m, group1 m) \<in> set (rmatch ic r (s, None))"
  by (auto simp: re_match_def split: list.splits)

lemma greedy_self: "s \<in> set (greedy p s)"
  by (cases s) auto

lemma greedy_append_mem: "\<forall>c\<in>set u. p c \<Longrightarrow> v \<in> set (greedy p (u @ v))"
  by (induction u) (auto simp: greedy_self)

lemma lazy_hd: "\<exists>rest. lazy p v = v # rest"
  by (cases v) auto

lemma lazy_append_mem: "\<forall>c\<in>set u. p c \<Longrightarrow> v \<in> set (lazy p (u @ v))"
proof (induction u)
  case Nil
  obtain rest where "lazy p v = v # rest" using lazy_hd by blast
  then show ?case by simp
next
  case (Cons a u) then show ?case by simp
qed

lemma literal_append: "literal False as (as @ r) = [r]"
  by (induction as) auto

lemma seq_intro:
  "mid \<in> set (rmatch ic r st) \<Longrightarrow> x \<in> set (rmatch_seq ic rs mid) \<Longrightarrow>
   x \<in> set (rmatch_seq ic (r # rs) st)"
  by auto

lemma star_intro:
  "\<forall>c\<in>set u. cmatch ic k c \<Longrightarrow> (v, g) \<in> set (rmatch ic (RStar k) (u @ v, g))"
  using greedy_append_mem[of u "cmatch ic k" v] by simp

lemma star_lazy_intro:
  "\<forall>c\<in>set u. cmatch ic k c \<Longrightarrow> (v, g) \<in> set (rmatch ic (RStarLazy k) (u @ v, g))"
  using lazy_append_mem[of u "cmatch ic k" v] by simp

lemma plus_intro:
  assumes "u \<noteq> []" "\<forall>c\<in>set u. cmatch ic k c"
  shows "(v, g) \<in> set (rmatch ic (RPlus k) (u @ v, g))"
proof -
  from assms(1) obtain c u' where u: "u = c # u'" by (cases u) auto
  with assms(2) have "cmatch ic k c" "\<forall>c\<in>set u'. cmatch ic k c" by auto
  with greedy_append_mem[of u' "cmatch ic k" v] show ?thesis by (simp add: u)
qed

lemma lit_intro: "(v, g) \<in> set (rmatch False (RLit as) (as @ v, g))"
  by (simp add: literal_append)

text \<open>The part of the first pattern after its group.\<close>

lemma paren_bracket_tail_intro:
  assumes "\<forall>c\<in>set sp1. isspace c" "par \<noteq> []" "CHR '')'' \<notin> set par" "\<forall>c\<in>set sp2. isspace c"
    "newline \<notin> set br"
  shows "(rest, g) \<in> set (rmatch_seq False
      [RStar SpaceCh, RLit ''('', RPlus (NotInSet [Ch CHR '')'']),
       RLit '')'', RStar SpaceCh, RLit ''['', RStarLazy AnyCh, RLit '']'']
      (sp1 @ ''('' @ par @ '')'' @ sp2 @ ''['' @ br @ '']'' @ rest, g))"
proof -
  have 8: "(rest, g) \<in> set (rmatch_seq False [RLit '']''] ('']'' @ rest, g))"
    by (rule seq_intro[OF lit_intro]) simp
  have b: "\<forall>c\<in>set br. cmatch False AnyCh c" using assms(5) by auto
  have 7: "(rest, g) \<in> set (rmatch_seq False [RStarLazy AnyCh, RLit '']''] (br @ '']'' @ rest, g))"
    by (rule seq_intro[OF star_lazy_intro[OF b] 8])
  have 6: "(rest, g) \<in> set (rmatch_seq False [RLit ''['', RStarLazy AnyCh, RLit '']'']
      (''['' @ br @ '']'' @ rest, g))"
    by (rule seq_intro[OF lit_intro 7])
  have s2: "\<forall>c\<in>set sp2. cmatch False SpaceCh c" using assms(4) by simp
  have 5: "(rest, g) \<in> set (rmatch_seq False [RStar SpaceCh, RLit ''['', RStarLazy AnyCh, RLit '']'']
      (sp2 @ ''['' @ br @ '']'' @ rest, g))"
    by (rule seq_intro[OF star_intro[OF s2] 6])
  have 4: "(rest, g) \<in> set (rmatch_seq False
      [RLit '')'', RStar SpaceCh, RLit ''['', RStarLazy AnyCh, RLit '']'']
      ('')'' @ sp2 @ ''['' @ br @ '']'' @ rest, g))"
    by (rule seq_intro[OF lit_intro 5])
  have p: "\<forall>c\<in>set par. cmatch False (NotInSet [Ch CHR '')'']) c" using assms(3) by auto
  have 3: "(rest, g) \<in> set (rmatch_seq False
      [RPlus (NotInSet [Ch CHR '')'']), RLit '')'', RStar SpaceCh, RLit ''['', RStarLazy AnyCh, RLit '']'']
      (par @ '')'' @ sp2 @ ''['' @ br @ '']'' @ rest, g))"
    by (rule seq_intro[OF plus_intro[OF assms(2) p] 4])
  have 2: "(rest, g) \<in> set (rmatch_seq False
      [RLit ''('', RPlus (NotInSet [Ch CHR '')'']), RLit '')'', RStar SpaceCh, RLit ''['',
       RStarLazy AnyCh, RLit '']'']
      (''('' @ par @ '')'' @ sp2 @ ''['' @ br @ '']'' @ rest, g))"
    by (rule seq_intro[OF lit_intro 3])
  have s1: "\<forall>c\<in>set sp1. cmatch False SpaceCh c" using assms(1) by simp
  show ?thesis by (rule seq_intro[OF star_intro[OF s1] 2])
qed

lemma hd_dropWhile_append:
  assumes "\<not> P z"
  shows "hd (dropWhile P (a @ z # b)) \<in> insert z (set a)"
proof (cases "\<forall>x\<in>set a. P x")
  case True
  with assms show ?thesis by (simp add: dropWhile_append)
next
  case False
  then obtain x where x: "x \<in> set a" "\<not> P x" by blast
  then have d: "dropWhile P (a @ z # b) = dropWhile P a @ z # b" by (rule dropWhile_append1)
  from False have n: "dropWhile P a \<noteq> []" by (simp add: dropWhile_eq_Nil_conv)
  then have "hd (dropWhile P a) \<in> set a" by (metis hd_in_set set_dropWhileD)
  with n show ?thesis by (simp add: d)
qed

lemma paren_bracket_tail_fails:
  assumes "\<not> isspace z" "z \<noteq> CHR ''(''" "CHR ''('' \<notin> set a"
  shows "rmatch_seq False (RStar SpaceCh # RLit ''('' # rs) (a @ z # b, g) = []"
proof (rule ccontr)
  assume "rmatch_seq False (RStar SpaceCh # RLit ''('' # rs) (a @ z # b, g) \<noteq> []"
  then obtain x where "x \<in> set (rmatch_seq False (RStar SpaceCh # RLit ''('' # rs) (a @ z # b, g))"
    by (meson last_in_set)
  from seq_mem[OF this] obtain s1 g1 where
    m1: "(s1, g1) \<in> set (rmatch False (RStar SpaceCh) (a @ z # b, g))" and
    a1: "x \<in> set (rmatch_seq False (RLit ''('' # rs) (s1, g1))" by blast
  from star_mem[OF m1] obtain w where w: "a @ z # b = w @ s1" "\<forall>c\<in>set w. cmatch False SpaceCh c"
    by blast
  from seq_mem[OF a1] obtain s2 g2 where
    m2: "(s2, g2) \<in> set (rmatch False (RLit ''('') (s1, g1))" by blast
  from lit_mem[OF m2] have "s1 = ''('' @ s2" by simp
  with w have e: "a @ z # b = w @ CHR ''('' # s2" and sp: "\<forall>c\<in>set w. isspace c" by auto
  have "\<not> isspace CHR ''(''" by code_simp
  with sp have "hd (dropWhile isspace (w @ CHR ''('' # s2)) = CHR ''(''"
    by (simp add: dropWhile_append)
  moreover have "hd (dropWhile isspace (a @ z # b)) \<in> insert z (set a)"
    by (rule hd_dropWhile_append[where P = isspace, OF assms(1)])
  ultimately show False using e assms(2,3) by auto
qed

lemma lazy_skip:
  assumes "\<forall>c\<in>set u. p c" "\<forall>i<length u. f (drop i (u @ v)) = []"
  shows "concat (map f (lazy p (u @ v))) = concat (map f (lazy p v))"
  using assms
proof (induction u)
  case Nil then show ?case by simp
next
  case (Cons c u)
  from Cons.prems(2) have 0: "f (c # u @ v) = []" by force
  have "\<forall>i<length u. f (drop i (u @ v)) = []"
  proof (intro allI impI)
    fix i assume "i < length u"
    then have "Suc i < length (c # u)" by simp
    from Cons.prems(2)[rule_format, OF this] show "f (drop i (u @ v)) = []" by simp
  qed
  with Cons.IH Cons.prems(1) have "concat (map f (lazy p (u @ v))) = concat (map f (lazy p v))" by simp
  with 0 Cons.prems(1) show ?case by simp
qed


lemma paren_bracket_tail_shape:
  assumes "x \<in> set (rmatch_seq False
      [RStar SpaceCh, RLit ''('', RPlus (NotInSet [Ch CHR '')'']),
       RLit '')'', RStar SpaceCh, RLit ''['', RStarLazy AnyCh, RLit '']''] (s, g))"
  shows "snd x = g \<and> paren_bracket_tail s"
proof -
  from seq_mem[OF assms] obtain s1 g1 where
    m1: "(s1, g1) \<in> set (rmatch False (RStar SpaceCh) (s, g))" and
    a1: "x \<in> set (rmatch_seq False [RLit ''('', RPlus (NotInSet [Ch CHR '')'']),
       RLit '')'', RStar SpaceCh, RLit ''['', RStarLazy AnyCh, RLit '']''] (s1, g1))" by blast
  from seq_mem[OF a1] obtain s2 g2 where
    m2: "(s2, g2) \<in> set (rmatch False (RLit ''('') (s1, g1))" and
    a2: "x \<in> set (rmatch_seq False [RPlus (NotInSet [Ch CHR '')'']),
       RLit '')'', RStar SpaceCh, RLit ''['', RStarLazy AnyCh, RLit '']''] (s2, g2))" by blast
  from seq_mem[OF a2] obtain s3 g3 where
    m3: "(s3, g3) \<in> set (rmatch False (RPlus (NotInSet [Ch CHR '')''])) (s2, g2))" and
    a3: "x \<in> set (rmatch_seq False
       [RLit '')'', RStar SpaceCh, RLit ''['', RStarLazy AnyCh, RLit '']''] (s3, g3))" by blast
  from seq_mem[OF a3] obtain s4 g4 where
    m4: "(s4, g4) \<in> set (rmatch False (RLit '')'') (s3, g3))" and
    a4: "x \<in> set (rmatch_seq False [RStar SpaceCh, RLit ''['', RStarLazy AnyCh, RLit '']''] (s4, g4))"
    by blast
  from seq_mem[OF a4] obtain s5 g5 where
    m5: "(s5, g5) \<in> set (rmatch False (RStar SpaceCh) (s4, g4))" and
    a5: "x \<in> set (rmatch_seq False [RLit ''['', RStarLazy AnyCh, RLit '']''] (s5, g5))" by blast
  from seq_mem[OF a5] obtain s6 g6 where
    m6: "(s6, g6) \<in> set (rmatch False (RLit ''['') (s5, g5))" and
    a6: "x \<in> set (rmatch_seq False [RStarLazy AnyCh, RLit '']''] (s6, g6))" by blast
  from seq_mem[OF a6] obtain s7 g7 where
    m7: "(s7, g7) \<in> set (rmatch False (RStarLazy AnyCh) (s6, g6))" and
    a7: "x \<in> set (rmatch_seq False [RLit '']''] (s7, g7))" by blast
  from seq_mem[OF a7] obtain s8 g8 where
    m8: "(s8, g8) \<in> set (rmatch False (RLit '']'') (s7, g7))" and
    a8: "x \<in> set (rmatch_seq False [] (s8, g8))" by blast
  from star_mem[OF m1] obtain sp1 where
    sp1: "g1 = g" "s = sp1 @ s1" "\<forall>c\<in>set sp1. cmatch False SpaceCh c" by blast
  from lit_mem[OF m2] have l2: "g2 = g1" "s1 = ''('' @ s2" by auto
  from plus_mem[OF m3] obtain par where
    par: "g3 = g2" "par \<noteq> []" "s2 = par @ s3" "\<forall>c\<in>set par. cmatch False (NotInSet [Ch CHR '')'']) c"
    by blast
  from lit_mem[OF m4] have l4: "g4 = g3" "s3 = '')'' @ s4" by auto
  from star_mem[OF m5] obtain sp2 where
    sp2: "g5 = g4" "s4 = sp2 @ s5" "\<forall>c\<in>set sp2. cmatch False SpaceCh c" by blast
  from lit_mem[OF m6] have l6: "g6 = g5" "s5 = ''['' @ s6" by auto
  from star_lazy_mem[OF m7] obtain br where
    br: "g7 = g6" "s6 = br @ s7" "\<forall>c\<in>set br. cmatch False AnyCh c" by blast
  from lit_mem[OF m8] have l8: "g8 = g7" "s7 = '']'' @ s8" by auto
  from a8 have "snd x = g8" by simp
  then have 1: "snd x = g" using l8(1) br(1) l6(1) sp2(1) l4(1) par(1) l2(1) sp1(1) by simp
  have 2: "s = sp1 @ ''('' @ par @ '')'' @ sp2 @ ''['' @ br @ '']'' @ s8"
    using sp1(2) l2(2) par(3) l4(2) sp2(2) l6(2) br(2) l8(2) by simp
  have 3: "\<forall>c\<in>set sp1. isspace c" using sp1(3) by simp
  have 4: "CHR '')'' \<notin> set par" using par(4) by auto
  have 5: "\<forall>c\<in>set sp2. isspace c" using sp2(3) by simp
  have 6: "newline \<notin> set br" using br(3) by auto
  have "paren_bracket_tail s" unfolding paren_bracket_tail_def
    using 2 3 4 5 6 par(2)
    by (intro exI[of _ sp1] exI[of _ par] exI[of _ sp2] exI[of _ br] exI[of _ s8]) blast
  with 1 show ?thesis by blast
qed

lemma paren_bracket_tail_iff:
  "paren_bracket_tail s \<longleftrightarrow>
   rmatch_seq False [RStar SpaceCh, RLit ''('', RPlus (NotInSet [Ch CHR '')'']),
       RLit '')'', RStar SpaceCh, RLit ''['', RStarLazy AnyCh, RLit '']''] (s, g) \<noteq> []"
proof
  assume "paren_bracket_tail s"
  then obtain sp1 par sp2 br rest where
    f: "s = sp1 @ ''('' @ par @ '')'' @ sp2 @ ''['' @ br @ '']'' @ rest"
       "\<forall>c\<in>set sp1. isspace c" "par \<noteq> []" "CHR '')'' \<notin> set par" "\<forall>c\<in>set sp2. isspace c"
       "newline \<notin> set br"
    unfolding paren_bracket_tail_def by blast
  have "(rest, g) \<in> set (rmatch_seq False
      [RStar SpaceCh, RLit ''('', RPlus (NotInSet [Ch CHR '')'']),
       RLit '')'', RStar SpaceCh, RLit ''['', RStarLazy AnyCh, RLit '']''] (s, g))"
    unfolding f(1) by (rule paren_bracket_tail_intro[OF f(2-6)])
  then show "rmatch_seq False [RStar SpaceCh, RLit ''('', RPlus (NotInSet [Ch CHR '')'']),
       RLit '')'', RStar SpaceCh, RLit ''['', RStarLazy AnyCh, RLit '']''] (s, g) \<noteq> []"
    by (metis empty_iff list.set(1))
next
  assume "rmatch_seq False [RStar SpaceCh, RLit ''('', RPlus (NotInSet [Ch CHR '')'']),
       RLit '')'', RStar SpaceCh, RLit ''['', RStarLazy AnyCh, RLit '']''] (s, g) \<noteq> []"
  then obtain x where "x \<in> set (rmatch_seq False [RStar SpaceCh, RLit ''('', RPlus (NotInSet [Ch CHR '')'']),
       RLit '')'', RStar SpaceCh, RLit ''['', RStarLazy AnyCh, RLit '']''] (s, g))"
    by (meson last_in_set)
  from paren_bracket_tail_shape[OF this] show "paren_bracket_tail s" by blast
qed

lemma strip_trimmed: "trimmed (strip s)"
proof (cases "strip s = []")
  case True then show ?thesis by (simp add: trimmed_def)
next
  case False
  define d where "d = dropWhile isspace s"
  define e where "e = dropWhile isspace (rev d)"
  have st: "strip s = rev e" by (simp add: strip_def lstrip_def d_def e_def)
  with False have e: "e \<noteq> []" by simp
  then have he: "\<not> isspace (hd e)" unfolding e_def by (rule hd_dropWhile)
  from e have d: "d \<noteq> []" by (auto simp: e_def)
  then have hd: "\<not> isspace (hd d)" unfolding d_def by (rule hd_dropWhile)
  have "rev d = takeWhile isspace (rev d) @ e" by (simp add: e_def)
  then have "last (rev d) = last e" using e by (metis last_appendR)
  then have le: "last e = hd d" using d by (simp add: last_rev)
  have "hd (rev e) = last e" using e by (simp add: hd_rev)
  moreover have "last (rev e) = hd e" using e by (simp add: last_rev)
  ultimately show ?thesis using he hd le e by (simp add: trimmed_def st)
qed

lemma re_match_bold:
  "re_match False (RLit ''**'') s =
     (case s of
        a # b # cs \<Rightarrow> if a = CHR ''*'' \<and> b = CHR ''*'' then Some \<lparr>group1 = None, after = cs\<rparr> else None
      | _ \<Rightarrow> None)"
  by (simp add: re_match_def split: list.splits)

lemma re_sub_bold: "re_sub False (RLit ''**'') [] s = remove_bold s"
proof (induction s rule: remove_bold.induct)
  case 1
  show ?case by (simp add: re_sub_Nil re_match_bold)
next
  case (2 a)
  have n: "re_match False (RLit ''**'') [a] = None" by (simp add: re_match_bold)
  have "re_match False (RLit ''**'') [] = None" by (simp add: re_match_bold)
  then have "re_sub False (RLit ''**'') [] [] = []" by (rule re_sub_Nil)
  with re_sub_None[OF n, of "[]"] show ?case by simp
next
  case (3 a b cs)
  show ?case
  proof (cases "a = CHR ''*'' \<and> b = CHR ''*''")
    case True
    then have m: "re_match False (RLit ''**'') (a # b # cs) = Some \<lparr>group1 = None, after = cs\<rparr>"
      by (simp add: re_match_bold)
    from re_sub_Some[OF m, of "[]"] 3 True show ?thesis by simp
  next
    case False
    then have "re_match False (RLit ''**'') (a # b # cs) = None" by (simp add: re_match_bold)
    from re_sub_None[OF this, of "[]"] 3 False show ?thesis by auto
  qed
qed

lemma cleanup_eq: "cleanup t = strip (collapse '' '' (remove_bold t))"
  by (simp add: cleanup_def re_sub_bold re_sub_spaces)

lemma group_plus_lazy_intro:
  assumes "t \<noteq> []" "\<forall>c\<in>set t. cmatch ic k c"
  shows "(X, Some t) \<in> set (rmatch ic (RGroup (RPlusLazy k)) (t @ X, g))"
proof -
  from assms(1) obtain c t' where ct: "t = c # t'" by (cases t) auto
  with assms(2) have pc: "cmatch ic k c" and pt: "\<forall>c\<in>set t'. cmatch ic k c" by auto
  have "X \<in> set (lazy (cmatch ic k) (t' @ X))" by (rule lazy_append_mem[OF pt])
  then have "(\<lambda>r. (r, Some (take (length (t @ X) - length r) (t @ X)))) X \<in>
             (\<lambda>r. (r, Some (take (length (t @ X) - length r) (t @ X)))) ` set (lazy (cmatch ic k) (t' @ X))"
    by (rule imageI)
  then show ?thesis using pc by (simp add: ct comp_def)
qed

text \<open>With a lazy group at the head of a sequence, the first match has the shortest
  group for which the rest of the sequence matches.\<close>

lemma group_lazy_first:
  assumes ct: "t = c # t'" and p: "\<forall>x\<in>set t. cmatch ic k x"
      and skip: "\<forall>i<length t'. \<forall>g. rmatch_seq ic rs (drop i (t' @ X), g) = []"
      and y: "rmatch_seq ic rs (X, Some t) = y # ys"
  shows "\<exists>more. rmatch_seq ic (RGroup (RPlusLazy k) # rs) (t @ X, g0) = y # more"
proof -
  define s where "s = c # t' @ X"
  define f where "f r = rmatch_seq ic rs (r, Some (take (length s - length r) s))" for r
  have pc: "cmatch ic k c" and pt: "\<forall>x\<in>set t'. cmatch ic k x" using p ct by auto
  have whole: "rmatch_seq ic (RGroup (RPlusLazy k) # rs) (s, g0) = concat (map f (lazy (cmatch ic k) (t' @ X)))"
    using pc by (simp add: s_def f_def[abs_def] comp_def)
  have sk: "\<forall>i<length t'. f (drop i (t' @ X)) = []" using skip by (simp add: f_def)
  from lazy_skip[OF pt sk] have c1:
    "concat (map f (lazy (cmatch ic k) (t' @ X))) = concat (map f (lazy (cmatch ic k) X))" .
  obtain more where lz: "lazy (cmatch ic k) X = X # more" using lazy_hd by blast
  have len: "take (length s - length X) s = t" by (simp add: s_def ct)
  have fX: "f X = y # ys" by (simp add: f_def len y)
  have "rmatch_seq ic (RGroup (RPlusLazy k) # rs) (s, g0) = y # ys @ concat (map f more)"
    unfolding whole c1 lz by (simp add: fX)
  then show ?thesis by (simp add: s_def ct)
qed

lemma paren_bracket_first:
  assumes t: "t \<noteq> []" "newline \<notin> set t"
      and tl: "paren_bracket_tail X"
      and shortest: "\<forall>n. 0 < n \<and> n < length t \<longrightarrow> \<not> paren_bracket_tail (drop n (t @ X))"
  shows "\<exists>a. re_match False title_paren_bracket (t @ X) = Some \<lparr>group1 = Some t, after = a\<rparr>"
proof -
  define rs where "rs = [RStar SpaceCh, RLit ''('', RPlus (NotInSet [Ch CHR '')'']),
       RLit '')'', RStar SpaceCh, RLit ''['', RStarLazy AnyCh, RLit '']'']"
  from t(1) obtain c t' where ct: "t = c # t'" by (cases t) auto
  have p: "\<forall>x\<in>set t. cmatch False AnyCh x" using t(2) by auto
  have skip: "\<forall>i<length t'. \<forall>g. rmatch_seq False rs (drop i (t' @ X), g) = []"
  proof (intro allI impI)
    fix i g assume i: "i < length t'"
    then have "0 < Suc i \<and> Suc i < length t" by (simp add: ct)
    with shortest have "\<not> paren_bracket_tail (drop (Suc i) (t @ X))" by blast
    then have "\<not> paren_bracket_tail (drop i (t' @ X))" by (simp add: ct)
    then show "rmatch_seq False rs (drop i (t' @ X), g) = []"
      unfolding rs_def using paren_bracket_tail_iff by blast
  qed
  from tl have "rmatch_seq False rs (X, Some t) \<noteq> []"
    unfolding rs_def using paren_bracket_tail_iff by blast
  then obtain y ys where y: "rmatch_seq False rs (X, Some t) = y # ys"
    by (cases "rmatch_seq False rs (X, Some t)") auto
  then have "y \<in> set (rmatch_seq False rs (X, Some t))" by simp
  then have g: "snd y = Some t" unfolding rs_def using paren_bracket_tail_shape by blast
  from group_lazy_first[OF ct p skip y, of None] obtain more where
    m: "rmatch_seq False (RGroup (RPlusLazy AnyCh) # rs) (t @ X, None) = y # more"
    by blast
  have e: "title_paren_bracket = RSeq (RGroup (RPlusLazy AnyCh) # rs)"
    by (simp add: title_paren_bracket_def rs_def)
  have "rmatch False title_paren_bracket (t @ X, None) = y # more"
    unfolding e by (simp only: rmatch.simps(10) m)
  then have "re_match False title_paren_bracket (t @ X) = Some \<lparr>group1 = snd y, after = fst y\<rparr>"
    by (simp add: re_match_def split: prod.splits)
  then show ?thesis using g by simp
qed

text \<open>A text without an opening parenthesis that does not end in whitespace is the
  shortest one.\<close>

lemma paren_bracket_shortest:
  assumes "CHR ''('' \<notin> set t" "\<not> isspace (last t)"
  shows "\<forall>n. 0 < n \<and> n < length t \<longrightarrow> \<not> paren_bracket_tail (drop n (t @ X))"
proof (intro allI impI)
  fix n assume n: "0 < n \<and> n < length t"
  then have ne: "drop n t \<noteq> []" and tn: "t \<noteq> []" by auto
  have l: "last (drop n t) = last t" using n by simp
  have "drop n (t @ X) = drop n t @ X" using n by simp
  also have "\<dots> = (butlast (drop n t) @ [last t]) @ X"
    using append_butlast_last_id[OF ne] l by simp
  finally have d: "drop n (t @ X) = butlast (drop n t) @ last t # X" by simp
  have z: "last t \<noteq> CHR ''(''" using tn assms(1) last_in_set by metis
  have a: "CHR ''('' \<notin> set (butlast (drop n t))"
    using assms(1) by (metis in_set_butlastD in_set_dropD)
  have "rmatch_seq False (RStar SpaceCh # RLit ''('' # [RPlus (NotInSet [Ch CHR '')'']),
       RLit '')'', RStar SpaceCh, RLit ''['', RStarLazy AnyCh, RLit '']''])
       (butlast (drop n t) @ last t # X, None) = []"
    by (rule paren_bracket_tail_fails[OF assms(2) z a])
  then show "\<not> paren_bracket_tail (drop n (t @ X))"
    unfolding d using paren_bracket_tail_iff by blast
qed

lemma paren_bracket_form_iff:
  "paren_bracket_form s \<longleftrightarrow> re_match False title_paren_bracket s \<noteq> None"
proof
  assume "paren_bracket_form s"
  then obtain t X where
    f: "s = t @ X" "t \<noteq> []" "newline \<notin> set t" "paren_bracket_tail X"
    unfolding paren_bracket_form_def by blast
  have p: "\<forall>c\<in>set t. cmatch False AnyCh c" using f(3) by auto
  have 1: "(X, Some t) \<in> set (rmatch False (RGroup (RPlusLazy AnyCh)) (s, None))"
    unfolding f(1) by (rule group_plus_lazy_intro[OF f(2) p])
  from f(4) obtain x where 2: "x \<in> set (rmatch_seq False
      [RStar SpaceCh, RLit ''('', RPlus (NotInSet [Ch CHR '')'']),
       RLit '')'', RStar SpaceCh, RLit ''['', RStarLazy AnyCh, RLit '']''] (X, Some t))"
    using paren_bracket_tail_iff[of X "Some t"] by (meson last_in_set)
  have "x \<in> set (rmatch_seq False
      [RGroup (RPlusLazy AnyCh), RStar SpaceCh, RLit ''('', RPlus (NotInSet [Ch CHR '')'']),
       RLit '')'', RStar SpaceCh, RLit ''['', RStarLazy AnyCh, RLit '']''] (s, None))"
    by (rule seq_intro[OF 1 2])
  then have "x \<in> set (rmatch False title_paren_bracket (s, None))"
    by (simp only: title_paren_bracket_def rmatch.simps(10))
  then have "rmatch False title_paren_bracket (s, None) \<noteq> []" by auto
  then show "re_match False title_paren_bracket s \<noteq> None"
    by (simp add: re_match_def split: list.splits)
next
  assume "re_match False title_paren_bracket s \<noteq> None"
  then obtain m where m: "re_match False title_paren_bracket s = Some m" by blast
  from re_match_Some_mem[OF m] have "(after m, group1 m) \<in> set (rmatch_seq False
      [RGroup (RPlusLazy AnyCh), RStar SpaceCh, RLit ''('', RPlus (NotInSet [Ch CHR '')'']),
       RLit '')'', RStar SpaceCh, RLit ''['', RStarLazy AnyCh, RLit '']''] (s, None))"
    by (simp only: title_paren_bracket_def rmatch.simps(10))
  from seq_mem[OF this] obtain s1 g1 where
    m1: "(s1, g1) \<in> set (rmatch False (RGroup (RPlusLazy AnyCh)) (s, None))" and
    a1: "(after m, group1 m) \<in> set (rmatch_seq False
      [RStar SpaceCh, RLit ''('', RPlus (NotInSet [Ch CHR '')'']),
       RLit '')'', RStar SpaceCh, RLit ''['', RStarLazy AnyCh, RLit '']''] (s1, g1))" by blast
  from group_plus_lazy_mem[OF m1] obtain t where
    t: "t \<noteq> []" "s = t @ s1" "\<forall>c\<in>set t. cmatch False AnyCh c" by blast
  from paren_bracket_tail_shape[OF a1] have "paren_bracket_tail s1" by blast
  moreover have "newline \<notin> set t" using t(3) by auto
  ultimately show "paren_bracket_form s" unfolding paren_bracket_form_def using t(1,2) by blast
qed

text \<open>The part of the second pattern after its group.\<close>

lemma link_tail_intro:
  assumes "url \<noteq> []" "CHR '')'' \<notin> set url"
  shows "(rest, g) \<in> set (rmatch_seq False
      [RLit '']'', RLit ''('', RPlus (NotInSet [Ch CHR '')'']), RLit '')'']
      ('']'' @ ''('' @ url @ '')'' @ rest, g))"
proof -
  have 4: "(rest, g) \<in> set (rmatch_seq False [RLit '')''] ('')'' @ rest, g))"
    by (rule seq_intro[OF lit_intro]) simp
  have u: "\<forall>c\<in>set url. cmatch False (NotInSet [Ch CHR '')'']) c" using assms(2) by auto
  have 3: "(rest, g) \<in> set (rmatch_seq False [RPlus (NotInSet [Ch CHR '')'']), RLit '')'']
      (url @ '')'' @ rest, g))"
    by (rule seq_intro[OF plus_intro[OF assms(1) u] 4])
  have 2: "(rest, g) \<in> set (rmatch_seq False [RLit ''('', RPlus (NotInSet [Ch CHR '')'']), RLit '')'']
      (''('' @ url @ '')'' @ rest, g))"
    by (rule seq_intro[OF lit_intro 3])
  show ?thesis by (rule seq_intro[OF lit_intro 2])
qed

lemma link_tail_shape:
  assumes "x \<in> set (rmatch_seq False
      [RLit '']'', RLit ''('', RPlus (NotInSet [Ch CHR '')'']), RLit '')''] (s, g))"
  shows "snd x = g \<and> link_tail s"
proof -
  from seq_mem[OF assms] obtain s1 g1 where
    m1: "(s1, g1) \<in> set (rmatch False (RLit '']'') (s, g))" and
    a1: "x \<in> set (rmatch_seq False [RLit ''('', RPlus (NotInSet [Ch CHR '')'']), RLit '')''] (s1, g1))"
    by blast
  from seq_mem[OF a1] obtain s2 g2 where
    m2: "(s2, g2) \<in> set (rmatch False (RLit ''('') (s1, g1))" and
    a2: "x \<in> set (rmatch_seq False [RPlus (NotInSet [Ch CHR '')'']), RLit '')''] (s2, g2))" by blast
  from seq_mem[OF a2] obtain s3 g3 where
    m3: "(s3, g3) \<in> set (rmatch False (RPlus (NotInSet [Ch CHR '')''])) (s2, g2))" and
    a3: "x \<in> set (rmatch_seq False [RLit '')''] (s3, g3))" by blast
  from seq_mem[OF a3] obtain s4 g4 where
    m4: "(s4, g4) \<in> set (rmatch False (RLit '')'') (s3, g3))" and
    a4: "x \<in> set (rmatch_seq False [] (s4, g4))" by blast
  from lit_mem[OF m1] have l1: "g1 = g" "s = '']'' @ s1" by auto
  from lit_mem[OF m2] have l2: "g2 = g1" "s1 = ''('' @ s2" by auto
  from plus_mem[OF m3] obtain url where
    url: "g3 = g2" "url \<noteq> []" "s2 = url @ s3" "\<forall>c\<in>set url. cmatch False (NotInSet [Ch CHR '')'']) c"
    by blast
  from lit_mem[OF m4] have l4: "g4 = g3" "s3 = '')'' @ s4" by auto
  from a4 have "snd x = g4" by simp
  then have 1: "snd x = g" using l4(1) url(1) l2(1) l1(1) by simp
  have 2: "s = '']'' @ ''('' @ url @ '')'' @ s4" using l1(2) l2(2) url(3) l4(2) by simp
  have 3: "CHR '')'' \<notin> set url" using url(4) by auto
  have "link_tail s" unfolding link_tail_def using 2 3 url(2)
    by (intro exI[of _ url] exI[of _ s4]) blast
  with 1 show ?thesis by blast
qed

lemma link_tail_iff:
  "link_tail s \<longleftrightarrow>
   rmatch_seq False [RLit '']'', RLit ''('', RPlus (NotInSet [Ch CHR '')'']), RLit '')''] (s, g) \<noteq> []"
proof
  assume "link_tail s"
  then obtain url rest where
    f: "s = '']'' @ ''('' @ url @ '')'' @ rest" "url \<noteq> []" "CHR '')'' \<notin> set url"
    unfolding link_tail_def by blast
  have "(rest, g) \<in> set (rmatch_seq False
      [RLit '']'', RLit ''('', RPlus (NotInSet [Ch CHR '')'']), RLit '')''] (s, g))"
    unfolding f(1) by (rule link_tail_intro[OF f(2,3)])
  then show "rmatch_seq False [RLit '']'', RLit ''('', RPlus (NotInSet [Ch CHR '')'']), RLit '')'']
      (s, g) \<noteq> []"
    by (metis empty_iff list.set(1))
next
  assume "rmatch_seq False [RLit '']'', RLit ''('', RPlus (NotInSet [Ch CHR '')'']), RLit '')'']
      (s, g) \<noteq> []"
  then obtain x where "x \<in> set (rmatch_seq False
      [RLit '']'', RLit ''('', RPlus (NotInSet [Ch CHR '')'']), RLit '')''] (s, g))"
    by (meson last_in_set)
  from link_tail_shape[OF this] show "link_tail s" by blast
qed

lemma seq_lit: "rmatch_seq False (RLit as # rs) (as @ Y, g) = rmatch_seq False rs (Y, g)"
  by (simp add: literal_append)

lemma markdown_link_first:
  assumes l: "label \<noteq> []" "newline \<notin> set label"
      and tl: "link_tail X"
      and shortest: "\<forall>n. 0 < n \<and> n < length label \<longrightarrow> \<not> link_tail (drop n (label @ X))"
  shows "\<exists>a. re_match False markdown_link (''['' @ label @ X) =
         Some \<lparr>group1 = Some label, after = a\<rparr>"
proof -
  define rs where "rs = [RLit '']'', RLit ''('', RPlus (NotInSet [Ch CHR '')'']), RLit '')'']"
  from l(1) obtain c t' where ct: "label = c # t'" by (cases label) auto
  have p: "\<forall>x\<in>set label. cmatch False AnyCh x" using l(2) by auto
  have skip: "\<forall>i<length t'. \<forall>g. rmatch_seq False rs (drop i (t' @ X), g) = []"
  proof (intro allI impI)
    fix i g assume i: "i < length t'"
    then have "0 < Suc i \<and> Suc i < length label" by (simp add: ct)
    with shortest have "\<not> link_tail (drop (Suc i) (label @ X))" by blast
    then have "\<not> link_tail (drop i (t' @ X))" by (simp add: ct)
    then show "rmatch_seq False rs (drop i (t' @ X), g) = []"
      unfolding rs_def using link_tail_iff by blast
  qed
  from tl have "rmatch_seq False rs (X, Some label) \<noteq> []"
    unfolding rs_def using link_tail_iff by blast
  then obtain y ys where y: "rmatch_seq False rs (X, Some label) = y # ys"
    by (cases "rmatch_seq False rs (X, Some label)") auto
  then have "y \<in> set (rmatch_seq False rs (X, Some label))" by simp
  then have g: "snd y = Some label" unfolding rs_def using link_tail_shape by blast
  from group_lazy_first[OF ct p skip y, of None] obtain more where
    m: "rmatch_seq False (RGroup (RPlusLazy AnyCh) # rs) (label @ X, None) = y # more"
    by blast
  have e: "markdown_link = RSeq (RLit ''['' # RGroup (RPlusLazy AnyCh) # rs)"
    by (simp add: markdown_link_def rs_def)
  have "rmatch False markdown_link (''['' @ label @ X, None) =
        rmatch_seq False (RGroup (RPlusLazy AnyCh) # rs) (label @ X, None)"
    unfolding e by (simp only: rmatch.simps(10) seq_lit)
  with m have "rmatch False markdown_link (''['' @ label @ X, None) = y # more" by (simp only:)
  then have "re_match False markdown_link (''['' @ label @ X) = Some \<lparr>group1 = snd y, after = fst y\<rparr>"
    by (simp add: re_match_def split: prod.splits)
  then show ?thesis using g by simp
qed

text \<open>A label without a closing bracket is the shortest one.\<close>

lemma link_shortest:
  assumes "CHR '']'' \<notin> set label"
  shows "\<forall>n. 0 < n \<and> n < length label \<longrightarrow> \<not> link_tail (drop n (label @ X))"
proof (intro allI impI)
  fix n assume n: "0 < n \<and> n < length label"
  then have "label ! n \<in> set label" by simp
  with assms have ne: "label ! n \<noteq> CHR '']''" by metis
  have d: "drop n (label @ X) = label ! n # drop (Suc n) label @ X"
    using n by (simp add: Cons_nth_drop_Suc)
  show "\<not> link_tail (drop n (label @ X))"
    unfolding d link_tail_def using ne by auto
qed

lemma link_form_iff: "link_form s \<longleftrightarrow> re_match False markdown_link s \<noteq> None"
proof
  assume "link_form s"
  then obtain label X where
    f: "s = ''['' @ label @ X" "label \<noteq> []" "newline \<notin> set label" "link_tail X"
    unfolding link_form_def by blast
  have p: "\<forall>c\<in>set label. cmatch False AnyCh c" using f(3) by auto
  have 0: "(label @ X, None) \<in> set (rmatch False (RLit ''['') (s, None))"
    unfolding f(1) by (rule lit_intro)
  have 1: "(X, Some label) \<in> set (rmatch False (RGroup (RPlusLazy AnyCh)) (label @ X, None))"
    by (rule group_plus_lazy_intro[OF f(2) p])
  from f(4) obtain x where 2: "x \<in> set (rmatch_seq False
      [RLit '']'', RLit ''('', RPlus (NotInSet [Ch CHR '')'']), RLit '')''] (X, Some label))"
    using link_tail_iff[of X "Some label"] by (meson last_in_set)
  have "x \<in> set (rmatch_seq False
      [RLit ''['', RGroup (RPlusLazy AnyCh), RLit '']'', RLit ''('',
       RPlus (NotInSet [Ch CHR '')'']), RLit '')''] (s, None))"
    by (rule seq_intro[OF 0 seq_intro[OF 1 2]])
  then have "x \<in> set (rmatch False markdown_link (s, None))"
    by (simp only: markdown_link_def rmatch.simps(10))
  then have "rmatch False markdown_link (s, None) \<noteq> []" by auto
  then show "re_match False markdown_link s \<noteq> None"
    by (simp add: re_match_def split: list.splits)
next
  assume "re_match False markdown_link s \<noteq> None"
  then obtain m where m: "re_match False markdown_link s = Some m" by blast
  from re_match_Some_mem[OF m] have "(after m, group1 m) \<in> set (rmatch_seq False
      [RLit ''['', RGroup (RPlusLazy AnyCh), RLit '']'', RLit ''('',
       RPlus (NotInSet [Ch CHR '')'']), RLit '')''] (s, None))"
    by (simp only: markdown_link_def rmatch.simps(10))
  from seq_mem[OF this] obtain s0 g0 where
    m0: "(s0, g0) \<in> set (rmatch False (RLit ''['') (s, None))" and
    a0: "(after m, group1 m) \<in> set (rmatch_seq False
      [RGroup (RPlusLazy AnyCh), RLit '']'', RLit ''('',
       RPlus (NotInSet [Ch CHR '')'']), RLit '')''] (s0, g0))" by blast
  from seq_mem[OF a0] obtain s1 g1 where
    m1: "(s1, g1) \<in> set (rmatch False (RGroup (RPlusLazy AnyCh)) (s0, g0))" and
    a1: "(after m, group1 m) \<in> set (rmatch_seq False
      [RLit '']'', RLit ''('', RPlus (NotInSet [Ch CHR '')'']), RLit '')''] (s1, g1))" by blast
  from lit_mem[OF m0] have l0: "s = ''['' @ s0" by simp
  from group_plus_lazy_mem[OF m1] obtain label where
    t: "label \<noteq> []" "s0 = label @ s1" "\<forall>c\<in>set label. cmatch False AnyCh c" by blast
  from link_tail_shape[OF a1] have "link_tail s1" by blast
  moreover have "newline \<notin> set label" using t(3) by auto
  moreover have "s = ''['' @ label @ s1" using l0 t(2) by simp
  ultimately show "link_form s" unfolding link_form_def using t(1) by blast
qed

lemma re_search_leftmost:
  assumes "\<forall>j<length pre. re_match ic r (drop j (pre @ s)) = None" "re_match ic r s = Some m"
  shows "re_search ic r (pre @ s) = Some m"
  using assms(1)
proof (induction pre)
  case Nil
  show ?case using assms(2) by (cases s) simp_all
next
  case (Cons c pre)
  from Cons.prems have 0: "re_match ic r (c # pre @ s) = None" by force
  have "\<forall>j<length pre. re_match ic r (drop j (pre @ s)) = None"
  proof (intro allI impI)
    fix j assume "j < length pre"
    then have "Suc j < length (c # pre)" by simp
    from Cons.prems[rule_format, OF this] show "re_match ic r (drop j (pre @ s)) = None" by simp
  qed
  from Cons.IH[OF this] 0 show ?case by simp
qed

text \<open>No link opens in a text without an opening bracket.\<close>

lemma link_leftmost:
  assumes "CHR ''['' \<notin> set pre"
  shows "\<forall>j<length pre. \<not> link_form (drop j (pre @ s))"
proof (intro allI impI)
  fix j assume j: "j < length pre"
  then have "pre ! j \<in> set pre" by simp
  with assms have ne: "pre ! j \<noteq> CHR ''[''" by metis
  have d: "drop j (pre @ s) = pre ! j # drop (Suc j) pre @ s"
    using j by (simp add: Cons_nth_drop_Suc)
  show "\<not> link_form (drop j (pre @ s))"
    unfolding d link_form_def using ne by auto
qed

subsection \<open>The claims about the extraction of the title\<close>

text \<open>
  C5, as the code has it. Let the trimmed line be a text \<open>t\<close> that is not empty and has no
  line break, followed by optional whitespace, a parenthetical and a bracketed segment,
  and let \<open>t\<close> be the shortest such text: no shorter start of \<open>t\<close> that is not empty is
  followed by optional whitespace, a parenthetical and a bracketed segment. Then the
  title is \<open>t\<close> trimmed, without its bold markers, with every run of whitespace replaced
  by one space and trimmed again, so it has no whitespace at its ends. Nothing is asked of
  what follows the bracketed segment or of the segment itself: a markdown link in the line
  does not change the title. A text without \<^verbatim>\<open>(\<close> that does not end in whitespace is the
  shortest one.
\<close>

theorem paren_bracket_rule:
  assumes "strip line = t @ X" "t \<noteq> []" "newline \<notin> set t" "paren_bracket_tail X"
      and "\<forall>n. 0 < n \<and> n < length t \<longrightarrow> \<not> paren_bracket_tail (drop n (strip line))"
  shows "extract_title_from_line line = strip (collapse '' '' (remove_bold (strip t))) \<and>
         trimmed (extract_title_from_line line)"
proof -
  from paren_bracket_first[OF assms(2-4) assms(5)[unfolded assms(1)]] obtain a where
    m: "re_match False title_paren_bracket (strip line) = Some \<lparr>group1 = Some t, after = a\<rparr>"
    unfolding assms(1) by blast
  have e: "extract_title_from_line line = cleanup (strip t)"
    using m by (simp add: extract_title_from_line_def cleanup_def Let_def group_def)
  have "trimmed (cleanup (strip t))" unfolding cleanup_def by (rule strip_trimmed)
  with e show ?thesis by (simp add: cleanup_eq)
qed

theorem paren_bracket_rule_witness:
  "extract_title_from_line ''  Deep  **Nets** (CVPR 2023) [Paper](http://x.y/z)'' = ''Deep Nets'' \<and>
   re_search False markdown_link (strip ''  Deep  **Nets** (CVPR 2023) [Paper](http://x.y/z)'') =
     Some \<lparr>group1 = Some ''Paper'', after = []\<rparr>"
proof -
  have s: "strip ''  Deep  **Nets** (CVPR 2023) [Paper](http://x.y/z)'' =
           ''Deep  **Nets**'' @ '' (CVPR 2023) [Paper](http://x.y/z)''"
    by code_simp
  have t1: "''Deep  **Nets**'' \<noteq> []" by simp
  have t2: "newline \<notin> set ''Deep  **Nets**''" by code_simp
  have "rmatch_seq False [RStar SpaceCh, RLit ''('', RPlus (NotInSet [Ch CHR '')'']),
       RLit '')'', RStar SpaceCh, RLit ''['', RStarLazy AnyCh, RLit '']'']
       ('' (CVPR 2023) [Paper](http://x.y/z)'', None) \<noteq> []"
    by code_simp
  then have x: "paren_bracket_tail '' (CVPR 2023) [Paper](http://x.y/z)''"
    by (rule paren_bracket_tail_iff[THEN iffD2])
  have p: "CHR ''('' \<notin> set ''Deep  **Nets**''" by code_simp
  have l: "\<not> isspace (last ''Deep  **Nets**'')" by code_simp
  have sh: "\<forall>n. 0 < n \<and> n < length ''Deep  **Nets**'' \<longrightarrow>
     \<not> paren_bracket_tail (drop n (strip ''  Deep  **Nets** (CVPR 2023) [Paper](http://x.y/z)''))"
    unfolding s by (rule paren_bracket_shortest[OF p l])
  have r: "strip (collapse '' '' (remove_bold (strip ''Deep  **Nets**''))) = ''Deep Nets''"
    by code_simp
  have "extract_title_from_line ''  Deep  **Nets** (CVPR 2023) [Paper](http://x.y/z)'' =
        strip (collapse '' '' (remove_bold (strip ''Deep  **Nets**'')))"
    using paren_bracket_rule[OF s t1 t2 x sh] by (rule conjunct1)
  then have e: "extract_title_from_line ''  Deep  **Nets** (CVPR 2023) [Paper](http://x.y/z)'' = ''Deep Nets''"
    by (simp only: r)
  have m: "re_search False markdown_link (strip ''  Deep  **Nets** (CVPR 2023) [Paper](http://x.y/z)'') =
           Some \<lparr>group1 = Some ''Paper'', after = []\<rparr>"
    by code_simp
  show ?thesis using e m by (rule conjI)
qed

text \<open>
  C5 as stated fails: the line is the text \<^verbatim>\<open>Nets (v2) [code]\<close>, a space, the
  parenthetical \<^verbatim>\<open>(CVPR 2023)\<close>, a space and the bracketed segment \<^verbatim>\<open>[Paper]\<close>, but
  the shorter text \<^verbatim>\<open>Nets\<close> is followed by a parenthetical and a bracketed segment
  too, and the title is \<^verbatim>\<open>Nets\<close>.
\<close>

theorem earlier_parenthetical_counterexample:
  "is_paper_title_line ''Nets (v2) [code] (CVPR 2023) [Paper]'' \<and>
   strip ''Nets (v2) [code] (CVPR 2023) [Paper]'' =
     ''Nets (v2) [code]'' @ '' '' @ ''('' @ ''CVPR 2023'' @ '')'' @ '' '' @ ''['' @ ''Paper'' @ '']'' \<and>
   extract_title_from_line ''Nets (v2) [code] (CVPR 2023) [Paper]'' = ''Nets''"
proof -
  have 1: "is_paper_title_line ''Nets (v2) [code] (CVPR 2023) [Paper]''" by code_simp
  have 2: "strip ''Nets (v2) [code] (CVPR 2023) [Paper]'' =
     ''Nets (v2) [code]'' @ '' '' @ ''('' @ ''CVPR 2023'' @ '')'' @ '' '' @ ''['' @ ''Paper'' @ '']''"
    by code_simp
  have 3: "extract_title_from_line ''Nets (v2) [code] (CVPR 2023) [Paper]'' = ''Nets''" by code_simp
  show ?thesis using 1 2 3 by blast
qed

text \<open>
  C6, as the code has it. Let the trimmed line not have the form of C5, and let it be
  some text, then \<^verbatim>\<open>[\<close>, a label that is not empty and has no line break, \<^verbatim>\<open>](\<close>, a url
  that is not empty and has no \<^verbatim>\<open>)\<close>, \<^verbatim>\<open>)\<close>, and the rest. Let this be the leftmost
  link, that is, no markdown link opens at a position of the text before it, and let the
  label be the shortest one, that is, no shorter start of the label that is not empty is
  followed by \<^verbatim>\<open>](\<close>, a url and \<^verbatim>\<open>)\<close>. Then the title is the label trimmed, without its
  bold markers, with every run of whitespace replaced by one space and trimmed again. No
  link opens in a text without \<^verbatim>\<open>[\<close>, and a label without \<^verbatim>\<open>]\<close> is the shortest one.
\<close>

theorem markdown_link_rule:
  assumes "strip line = pre @ ''['' @ label @ X" "label \<noteq> []" "newline \<notin> set label" "link_tail X"
      and "\<forall>j<length pre. \<not> link_form (drop j (strip line))"
      and "\<forall>n. 0 < n \<and> n < length label \<longrightarrow> \<not> link_tail (drop n (label @ X))"
      and "\<not> paren_bracket_form (strip line)"
  shows "extract_title_from_line line = strip (collapse '' '' (remove_bold (strip label))) \<and>
         trimmed (extract_title_from_line line)"
proof -
  from assms(7) have n: "re_match False title_paren_bracket (strip line) = None"
    by (simp add: paren_bracket_form_iff)
  from markdown_link_first[OF assms(2-4) assms(6)] obtain a where
    f: "re_match False markdown_link (''['' @ label @ X) = Some \<lparr>group1 = Some label, after = a\<rparr>"
    by blast
  have "\<forall>j<length pre. re_match False markdown_link (drop j (pre @ ''['' @ label @ X)) = None"
    using assms(5)[unfolded assms(1)] by (simp add: link_form_iff)
  from re_search_leftmost[OF this f] have
    m: "re_search False markdown_link (strip line) = Some \<lparr>group1 = Some label, after = a\<rparr>"
    unfolding assms(1) .
  have e: "extract_title_from_line line = cleanup (strip label)"
    using n m by (simp add: extract_title_from_line_def cleanup_def Let_def group_def)
  have "trimmed (cleanup (strip label))" unfolding cleanup_def by (rule strip_trimmed)
  with e show ?thesis by (simp add: cleanup_eq)
qed

theorem markdown_link_rule_witness:
  "extract_title_from_line ''[Great Paper Title](https://example.com/paper.pdf)'' = ''Great Paper Title'' \<and>
   extract_title_from_line ''  See  [**Great**  Paper](https://example.com/paper.pdf), 2023'' = ''Great Paper''"
proof -
  have s: "strip ''[Great Paper Title](https://example.com/paper.pdf)'' =
           [] @ ''['' @ ''Great Paper Title'' @ ''](https://example.com/paper.pdf)''"
    by code_simp
  have l1: "''Great Paper Title'' \<noteq> []" by simp
  have l2: "newline \<notin> set ''Great Paper Title''" by code_simp
  have "rmatch_seq False [RLit '']'', RLit ''('', RPlus (NotInSet [Ch CHR '')'']), RLit '')'']
       (''](https://example.com/paper.pdf)'', None) \<noteq> []"
    by code_simp
  then have x: "link_tail ''](https://example.com/paper.pdf)''"
    by (rule link_tail_iff[THEN iffD2])
  have lm: "\<forall>j<length ([]::string).
     \<not> link_form (drop j (strip ''[Great Paper Title](https://example.com/paper.pdf)''))"
    by simp
  have b: "CHR '']'' \<notin> set ''Great Paper Title''" by code_simp
  have sh: "\<forall>n. 0 < n \<and> n < length ''Great Paper Title'' \<longrightarrow>
     \<not> link_tail (drop n (''Great Paper Title'' @ ''](https://example.com/paper.pdf)''))"
    by (rule link_shortest[OF b])
  have "re_match False title_paren_bracket (strip ''[Great Paper Title](https://example.com/paper.pdf)'') = None"
    by code_simp
  then have nf: "\<not> paren_bracket_form (strip ''[Great Paper Title](https://example.com/paper.pdf)'')"
    using paren_bracket_form_iff by blast
  have r: "strip (collapse '' '' (remove_bold (strip ''Great Paper Title''))) = ''Great Paper Title''"
    by code_simp
  have "extract_title_from_line ''[Great Paper Title](https://example.com/paper.pdf)'' =
        strip (collapse '' '' (remove_bold (strip ''Great Paper Title'')))"
    using markdown_link_rule[OF s l1 l2 x lm sh nf] by (rule conjunct1)
  then have e1: "extract_title_from_line ''[Great Paper Title](https://example.com/paper.pdf)'' =
        ''Great Paper Title''"
    by (simp only: r)
  have s': "strip ''  See  [**Great**  Paper](https://example.com/paper.pdf), 2023'' =
           ''See  '' @ ''['' @ ''**Great**  Paper'' @ ''](https://example.com/paper.pdf), 2023''"
    by code_simp
  have l1': "''**Great**  Paper'' \<noteq> []" by simp
  have l2': "newline \<notin> set ''**Great**  Paper''" by code_simp
  have "rmatch_seq False [RLit '']'', RLit ''('', RPlus (NotInSet [Ch CHR '')'']), RLit '')'']
       (''](https://example.com/paper.pdf), 2023'', None) \<noteq> []"
    by code_simp
  then have x': "link_tail ''](https://example.com/paper.pdf), 2023''"
    by (rule link_tail_iff[THEN iffD2])
  have o: "CHR ''['' \<notin> set ''See  ''" by code_simp
  have lm': "\<forall>j<length ''See  ''.
     \<not> link_form (drop j (strip ''  See  [**Great**  Paper](https://example.com/paper.pdf), 2023''))"
    unfolding s' by (rule link_leftmost[OF o])
  have b': "CHR '']'' \<notin> set ''**Great**  Paper''" by code_simp
  have sh': "\<forall>n. 0 < n \<and> n < length ''**Great**  Paper'' \<longrightarrow>
     \<not> link_tail (drop n (''**Great**  Paper'' @ ''](https://example.com/paper.pdf), 2023''))"
    by (rule link_shortest[OF b'])
  have "re_match False title_paren_bracket
          (strip ''  See  [**Great**  Paper](https://example.com/paper.pdf), 2023'') = None"
    by code_simp
  then have nf': "\<not> paren_bracket_form (strip ''  See  [**Great**  Paper](https://example.com/paper.pdf), 2023'')"
    using paren_bracket_form_iff by blast
  have r': "strip (collapse '' '' (remove_bold (strip ''**Great**  Paper''))) = ''Great Paper''"
    by code_simp
  have "extract_title_from_line ''  See  [**Great**  Paper](https://example.com/paper.pdf), 2023'' =
        strip (collapse '' '' (remove_bold (strip ''**Great**  Paper'')))"
    using markdown_link_rule[OF s' l1' l2' x' lm' sh' nf'] by (rule conjunct1)
  then have e2: "extract_title_from_line ''  See  [**Great**  Paper](https://example.com/paper.pdf), 2023'' =
        ''Great Paper''"
    by (simp only: r')
  show ?thesis using e1 e2 by (rule conjI)
qed

text \<open>
  C6 as stated fails: the line does not have the form of C5 and holds the markdown link
  \<^verbatim>\<open>[Label](http://u)\<close>, but the bracket of \<^verbatim>\<open>[a]\<close> before it opens a link too, with
  the label \<^verbatim>\<open>a] and [Label\<close>, and that is the title.
\<close>

theorem earlier_bracket_counterexample:
  "is_paper_title_line ''See [a] and [Label](http://u) end'' \<and>
   re_match False title_paren_bracket (strip ''See [a] and [Label](http://u) end'') = None \<and>
   strip ''See [a] and [Label](http://u) end'' =
     ''See [a] and '' @ ''['' @ ''Label'' @ '']'' @ ''('' @ ''http://u'' @ '')'' @ '' end'' \<and>
   extract_title_from_line ''See [a] and [Label](http://u) end'' = ''a] and [Label''"
proof -
  have 1: "is_paper_title_line ''See [a] and [Label](http://u) end''" by code_simp
  have 2: "re_match False title_paren_bracket (strip ''See [a] and [Label](http://u) end'') = None"
    by code_simp
  have 3: "strip ''See [a] and [Label](http://u) end'' =
     ''See [a] and '' @ ''['' @ ''Label'' @ '']'' @ ''('' @ ''http://u'' @ '')'' @ '' end''"
    by code_simp
  have 4: "extract_title_from_line ''See [a] and [Label](http://u) end'' = ''a] and [Label''"
    by code_simp
  show ?thesis using 1 2 3 4 by blast
qed

section \<open>Properties of the file name and of the fingerprint\<close>

text \<open>
  C8, as the code has it. The file name is the section and an underscore, when the section
  is not empty, then the title part, then \<^verbatim>\<open>.pdf\<close>. The title part is the title without
  the characters \<^verbatim>\<open>< > : " / \ | ? *\<close>, trimmed, with every run of whitespace replaced by
  one underscore, cut to 80 characters. It has no whitespace and none of those characters,
  and each of its characters is an underscore or a character of the title. Other
  characters that are not alphanumeric stay.
\<close>

theorem sanitize_filename_shape:
  "sanitize_filename title0 section0 =
     (if section0 \<noteq> [] then section0 @ ''_'' else []) @
     take 80 (collapse ''_'' (strip (replace_char (CHR 0x0D) CHR '' '' (replace_char newline CHR '' ''
       (filter (\<lambda>c. c \<notin> set invalid_chars) title0))))) @ ''.pdf''
   \<and> (\<forall>c \<in> set (take 80 (collapse ''_'' (strip (replace_char (CHR 0x0D) CHR '' ''
          (replace_char newline CHR '' '' (filter (\<lambda>c. c \<notin> set invalid_chars) title0)))))).
        \<not> isspace c \<and> c \<notin> set invalid_chars \<and> (c = CHR ''_'' \<or> c \<in> set title0))"
proof
  show "sanitize_filename title0 section0 =
     (if section0 \<noteq> [] then section0 @ ''_'' else []) @
     take 80 (collapse ''_'' (strip (replace_char (CHR 0x0D) CHR '' '' (replace_char newline CHR '' ''
       (filter (\<lambda>c. c \<notin> set invalid_chars) title0))))) @ ''.pdf''"
    by (simp add: sanitize_filename_def Let_def re_sub_one re_sub_spaces invalid_class)
  define f where "f = filter (\<lambda>c. c \<notin> set invalid_chars) title0"
  define r where "r = replace_char (CHR 0x0D) CHR '' '' (replace_char newline CHR '' '' f)"
  have rset: "set r \<subseteq> set f \<union> {CHR '' ''}"
    by (auto simp: r_def replace_char_def)
  have "set (take 80 (collapse ''_'' (strip r))) \<subseteq> set (collapse ''_'' (strip r))"
    by (rule set_take_subset)
  also have "\<dots> \<subseteq> {CHR ''_''} \<union> {c \<in> set (strip r). \<not> isspace c}"
    using set_collapse[of "''_''" "strip r"] by simp
  also have "\<dots> \<subseteq> {CHR ''_''} \<union> {c \<in> set f \<union> {CHR '' ''}. \<not> isspace c}"
    using set_strip[of r] rset by auto
  finally have sub: "set (take 80 (collapse ''_'' (strip r))) \<subseteq>
    {CHR ''_''} \<union> {c \<in> set f \<union> {CHR '' ''}. \<not> isspace c}" .
  have sp: "isspace CHR '' ''" by code_simp
  show "\<forall>c \<in> set (take 80 (collapse ''_'' (strip (replace_char (CHR 0x0D) CHR '' ''
          (replace_char newline CHR '' '' (filter (\<lambda>c. c \<notin> set invalid_chars) title0)))))).
        \<not> isspace c \<and> c \<notin> set invalid_chars \<and> (c = CHR ''_'' \<or> c \<in> set title0)"
  proof
    fix c assume "c \<in> set (take 80 (collapse ''_'' (strip (replace_char (CHR 0x0D) CHR '' ''
          (replace_char newline CHR '' '' (filter (\<lambda>c. c \<notin> set invalid_chars) title0))))))"
    then have "c \<in> {CHR ''_''} \<union> {c \<in> set f \<union> {CHR '' ''}. \<not> isspace c}"
      using sub by (auto simp: r_def f_def)
    then show "\<not> isspace c \<and> c \<notin> set invalid_chars \<and> (c = CHR ''_'' \<or> c \<in> set title0)"
      using underscore_no_space underscore_valid sp by (auto simp: f_def)
  qed
qed

theorem sanitize_filename_shape_witness:
  "sanitize_filename ''What?  A: <b>'' ''CVPR'' = ''CVPR_What_A_b.pdf''"
proof -
  have c: "collapse ''_'' (strip (replace_char (CHR 0x0D) CHR '' '' (replace_char newline CHR '' ''
       (filter (\<lambda>c. c \<notin> set invalid_chars) ''What?  A: <b>'')))) = ''What_A_b''"
    by code_simp
  have e: "sanitize_filename ''What?  A: <b>'' ''CVPR'' =
            (if ''CVPR'' \<noteq> [] then ''CVPR'' @ ''_'' else []) @
            take 80 (collapse ''_'' (strip (replace_char (CHR 0x0D) CHR '' '' (replace_char newline CHR '' ''
              (filter (\<lambda>c. c \<notin> set invalid_chars) ''What?  A: <b>''))))) @ ''.pdf''"
    using sanitize_filename_shape[of "''What?  A: <b>''" "''CVPR''"] by (rule conjunct1)
  show ?thesis unfolding e c by simp
qed

text \<open>C8 as stated fails: the hyphen and the exclamation mark of the title are kept.\<close>

theorem sanitize_filename_counterexample:
  "sanitize_filename ''Mask R-CNN!'' ''ICCV'' = ''ICCV_Mask_R-CNN!.pdf'' \<and> \<not> isword CHR ''-''"
  by code_simp

subsection \<open>The fingerprint\<close>

text \<open>The model of MD5 on the test suite of RFC 1321, and the encoding of a code point
  above 127.\<close>

lemma md5_empty: "md5 (encode []) = ''d41d8cd98f00b204e9800998ecf8427e''"
  by code_simp

lemma md5_abc: "md5 (encode ''abc'') = ''900150983cd24fb0d6963f7d28e17f72''"
  by code_simp

lemma md5_two_blocks:
  "md5 (encode ''12345678901234567890123456789012345678901234567890123456789012345678901234567890'') =
   ''57edf4a22be3c955ac49da2e2107b67a''"
  by code_simp

lemma md5_e_acute: "md5 (encode [CHR 0xE9]) = ''66ddcd97cfdeabb2f6fb8a999b4bc76f''"
  by code_simp

lemma clean_title_filter:
  "clean_title t = filter (\<lambda>c. isword c \<or> isspace c) (strip (lower t))"
  by (simp add: clean_title_def re_sub_one)

lemma sort_mset_eq:
  fixes xs ys :: "'a::linorder list"
  assumes "mset xs = mset ys"
  shows "sort xs = sort ys"
  by (rule properties_for_sort) (simp_all add: assms)

lemma author_str_perm:
  assumes "mset a1 = mset a2"
  shows "sort (map (\<lambda>a. strip (lower a)) (filter (\<lambda>a. a \<noteq> []) a1)) =
         sort (map (\<lambda>a. strip (lower a)) (filter (\<lambda>a. a \<noteq> []) a2))"
proof -
  have "mset (map (\<lambda>a. strip (lower a)) (filter (\<lambda>a. a \<noteq> []) a1)) =
        mset (map (\<lambda>a. strip (lower a)) (filter (\<lambda>a. a \<noteq> []) a2))"
    using assms by (simp only: mset_map mset_filter)
  then show ?thesis by (rule sort_mset_eq)
qed

text \<open>
  C10, as the code has it. \<^const>\<open>clean_title\<close> lowers the title, trims it, and only then
  deletes the characters that are neither word characters nor whitespace. Two titles
  whose lower-case trimmed forms are equal after that deletion, with author lists that are
  reorderings of each other, have the same fingerprint; so have the two titles without
  authors.
\<close>

theorem generate_paper_hash_invariant:
  assumes "filter (\<lambda>c. isword c \<or> isspace c) (strip (lower t1)) =
           filter (\<lambda>c. isword c \<or> isspace c) (strip (lower t2))"
      and "mset a1 = mset a2"
  shows "generate_paper_hash t1 (Some a1) = generate_paper_hash t2 (Some a2) \<and>
         generate_paper_hash t1 None = generate_paper_hash t2 None"
proof -
  from assms(1) have c: "clean_title t1 = clean_title t2" by (simp only: clean_title_filter)
  from assms(2) have e: "a1 = [] \<longleftrightarrow> a2 = []" by (metis mset_zero_iff)
  show ?thesis
    by (simp add: generate_paper_hash_def Let_def c e author_str_perm[OF assms(2)])
qed

theorem generate_paper_hash_invariant_witness:
  "generate_paper_hash ''Deep Learning: A Survey!'' (Some [''Bob Roe'', ''Alice Doe'']) =
   generate_paper_hash ''deep learning a survey'' (Some [''Alice Doe'', ''Bob Roe''])"
proof -
  have t: "filter (\<lambda>c. isword c \<or> isspace c) (strip (lower ''Deep Learning: A Survey!'')) =
           filter (\<lambda>c. isword c \<or> isspace c) (strip (lower ''deep learning a survey''))"
    by code_simp
  have a: "mset [''Bob Roe'', ''Alice Doe''] = mset [''Alice Doe'', ''Bob Roe'']"
    by (simp only: mset.simps add_mset_commute)
  show ?thesis using generate_paper_hash_invariant[OF t a] by (rule conjunct1)
qed

text \<open>
  C10 as stated fails: the two titles are equal after lowering and deleting the
  characters that are neither word characters nor whitespace, but the first keeps the
  space before its exclamation mark, because the title is trimmed before the deletion.
\<close>

theorem trailing_punctuation_counterexample:
  "filter (\<lambda>c. isword c \<or> isspace c) (lower ''Attention !'') =
     filter (\<lambda>c. isword c \<or> isspace c) (lower ''Attention '') \<and>
   clean_title ''Attention !'' = ''attention '' \<and>
   clean_title ''Attention '' = ''attention'' \<and>
   generate_paper_hash ''Attention !'' None = ''b66b760748119e8eecbd1717557bfdb8'' \<and>
   generate_paper_hash ''Attention '' None = ''4c4a9fd7f4a4a416922b64bb3060bcd3''"
proof -
  have 1: "filter (\<lambda>c. isword c \<or> isspace c) (lower ''Attention !'') =
           filter (\<lambda>c. isword c \<or> isspace c) (lower ''Attention '')" by code_simp
  have 2: "clean_title ''Attention !'' = ''attention ''" by code_simp
  have 3: "clean_title ''Attention '' = ''attention''" by code_simp
  have 4: "generate_paper_hash ''Attention !'' None = ''b66b760748119e8eecbd1717557bfdb8''"
    by code_simp
  have 5: "generate_paper_hash ''Attention '' None = ''4c4a9fd7f4a4a416922b64bb3060bcd3''"
    by code_simp
  show ?thesis using 1 2 3 4 5 by blast
qed

end
